theory Spec2Isabelle
  imports Complex_Main "HOL-Library.Multiset"
begin

section \<open>Product-key memory retrieval utilities: a shallow embedding of utils.py\<close>

text \<open>
  The development embeds the retrieval utilities of \<^verbatim>\<open>src/utils/utils.py\<close>: the key
  generators, the dimension slicer \<^verbatim>\<open>get_slices\<close>, the combiner
  \<^verbatim>\<open>cartesian_product\<close> and the two nearest-neighbour searches
  \<^verbatim>\<open>get_knn_pytorch\<close> and \<^verbatim>\<open>get_knn_faiss\<close>.

  Conventions of the embedding.
  \<^item> Python integers are \<open>int\<close>; a quantity that the source only ever uses as a count
    (a head number, a tensor extent) is \<open>nat\<close>.
  \<^item> A raised exception is the left injection of a sum: \<open>Inl AssertionError\<close> is a failed
    \<^verbatim>\<open>assert\<close>.
  \<^item> Tensor and array elements are real numbers. A function whose name ends in \<open>_fp\<close>
    carries the rounding of its floating-point operations as a parameter, applied after
    every operation; the function without the suffix is the same computation in exact
    arithmetic.
  \<^item> A tensor is its shape together with its elements in row-major order.
  \<^item> Library routines whose code is not part of the repository (the numpy generator, the
    native search library) are parameters of the functions that call them.
\<close>

subsection \<open>Errors\<close>

datatype error = AssertionError | ValueError | RuntimeError | ZeroDivisionError
  | UnboundLocalError | BackendError

subsection \<open>Floating-point rounding\<close>

text \<open>
  Rounding of a real number to the nearest binary floating-point number with \<open>p\<close>
  significant bits, ties to the even significand: the rounding of IEEE 754 arithmetic in
  its normal range. The exponent is unbounded here, so overflow and gradual underflow are
  not part of the definition. \<open>binade x\<close> is the exponent of \<open>x\<close>: the integer \<open>e\<close> with
  \<open>2\<^sup>e \<le> \<bar>x\<bar> < 2\<^sup>e\<^sup>+\<^sup>1\<close>. A 64-bit float has 53 significant bits, a 32-bit float 24.
\<close>

definition round_half_even :: "real \<Rightarrow> int" where
  "round_half_even y =
     (let f = \<lfloor>y\<rfloor> in
      if y - of_int f < 1 / 2 then f
      else if 1 / 2 < y - of_int f then f + 1
      else if even f then f else f + 1)"

definition binade :: "real \<Rightarrow> int" where
  "binade x = \<lfloor>log 2 \<bar>x\<bar>\<rfloor>"

definition round_to_precision :: "nat \<Rightarrow> real \<Rightarrow> real" where
  "round_to_precision p x =
     (if x = 0 then 0
      else let u = 2 powi (binade x - int p + 1)
           in of_int (round_half_even (x / u)) * u)"

definition float64_round :: "real \<Rightarrow> real" where
  "float64_round = round_to_precision 53"

definition float32_round :: "real \<Rightarrow> real" where
  "float32_round = round_to_precision 24"

subsection \<open>The dimension slicer\<close>

text \<open>
  \<^verbatim>\<open>np.arange(start, stop, step)\<close> on Python integers. numpy takes the number of
  elements from the quotient \<^verbatim>\<open>(stop - start) / step\<close>, which is Python's true division:
  a zero step raises \<^verbatim>\<open>ZeroDivisionError\<close>, otherwise the quotient is the exact one
  rounded to the nearest 64-bit float, and the number of elements is its ceiling (none
  when that is negative). Integer division \<open>div\<close> on \<open>int\<close> rounds towards minus infinity,
  as Python's \<^verbatim>\<open>//\<close> does.
\<close>

definition arange :: "int \<Rightarrow> int \<Rightarrow> int \<Rightarrow> error + int list" where
  "arange start stop step =
     (if step = 0 then Inl ZeroDivisionError
      else Inr (map (\<lambda>i. start + int i * step)
             [0..<nat \<lceil>float64_round (of_int (stop - start) / of_int step)\<rceil>]))"

text \<open>
  \<^verbatim>\<open>get_slices(dim, head_id)\<close>, lines 41 to 53 of the source. The head number is a natural
  number: for a negative one Python's \<^verbatim>\<open>2 ** (head_id + 1)\<close> is a float.
\<close>

definition get_slices :: "int \<Rightarrow> nat \<Rightarrow> error + (int \<times> int) list" where
  "get_slices dimension head_id =
     (if head_id = 0 then Inr [(0, dimension)]
      else
        let offset = dimension div (2 ^ (head_id + 1)) in
        case arange 0 dimension offset of
          Inl e \<Rightarrow> Inl e
        | Inr starts \<Rightarrow>
            let slices1 = [(x, x + offset). (i, x) \<leftarrow> enumerate 0 starts, i mod 2 = 0];
                slices2 = [(x, x + offset). (i, x) \<leftarrow> enumerate 0 starts, i mod 2 = 1]
            in Inr (slices1 @ slices2))"

text \<open>
  A slice \<open>(a, b)\<close> denotes the half-open range of coordinates from \<open>a\<close> up to \<open>b\<close>. A list of
  slices is disjoint when any two slices at different positions of the list have no
  coordinate in common (disjointness is symmetric, so it is enough to say so for every
  earlier and later slice); a list of slices partitions a dimension when it is disjoint
  and the slices together cover exactly the coordinates from \<open>0\<close> up to the dimension.
\<close>

definition slice_range :: "int \<times> int \<Rightarrow> int set" where
  "slice_range s = {fst s ..< snd s}"

definition slices_disjoint :: "(int \<times> int) list \<Rightarrow> bool" where
  "slices_disjoint rs = sorted_wrt (\<lambda>r s. slice_range r \<inter> slice_range s = {}) rs"

definition slices_union :: "(int \<times> int) list \<Rightarrow> int set" where
  "slices_union rs = (\<Union>r \<in> set rs. slice_range r)"

definition slices_partition :: "int \<Rightarrow> (int \<times> int) list \<Rightarrow> bool" where
  "slices_partition dimension rs \<longleftrightarrow> slices_disjoint rs \<and> slices_union rs = {0..<dimension}"

text \<open>
  The slicing rule in the words of the specification (section 4.2): the block size is the
  dimension divided by \<open>2 ^ (head_id + 1)\<close>; blocks start at \<open>0\<close>, \<open>offset\<close>, \<open>2 * offset\<close>, ... up
  to the dimension, and when the block size does not divide the dimension the final block
  is shorter, ending at the dimension; the blocks at even ordinal positions form group A,
  those at odd positions group B, each in ascending order; the result is A followed by B.
\<close>

function spec_blocks_from :: "int \<Rightarrow> int \<Rightarrow> int \<Rightarrow> (int \<times> int) list" where
  "spec_blocks_from s offset dimension =
     (if 0 < offset \<and> s < dimension
      then (s, min (s + offset) dimension) # spec_blocks_from (s + offset) offset dimension
      else [])"
  by pat_completeness auto
termination
  by (relation "measure (\<lambda>(s, offset, dimension). nat (dimension - s))") auto

definition even_then_odd :: "'a list \<Rightarrow> 'a list" where
  "even_then_odd blocks =
     [blocks ! i. i \<leftarrow> [0..<length blocks], even i] @ [blocks ! i. i \<leftarrow> [0..<length blocks], odd i]"

definition spec_slices :: "int \<Rightarrow> nat \<Rightarrow> (int \<times> int) list" where
  "spec_slices dimension head_id =
     even_then_odd (spec_blocks_from 0 (dimension div 2 ^ (head_id + 1)) dimension)"

text \<open>
  The same rule with every block of the full size: the block that starts at \<open>s\<close> ends at
  \<open>s + offset\<close>, also when that lies beyond the dimension.
\<close>

function full_blocks_from :: "int \<Rightarrow> int \<Rightarrow> int \<Rightarrow> (int \<times> int) list" where
  "full_blocks_from s offset dimension =
     (if 0 < offset \<and> s < dimension
      then (s, s + offset) # full_blocks_from (s + offset) offset dimension
      else [])"
  by pat_completeness auto
termination
  by (relation "measure (\<lambda>(s, offset, dimension). nat (dimension - s))") auto

definition full_block_slices :: "int \<Rightarrow> nat \<Rightarrow> (int \<times> int) list" where
  "full_block_slices dimension head_id =
     even_then_odd (full_blocks_from 0 (dimension div 2 ^ (head_id + 1)) dimension)"

text \<open>Auxiliary notions for the proofs: the \<open>i\<close>-th block and the number of blocks.\<close>

definition block :: "int \<Rightarrow> nat \<Rightarrow> int \<times> int" where
  "block offset i = (int i * offset, int i * offset + offset)"

definition nblocks :: "int \<Rightarrow> int \<Rightarrow> nat" where
  "nblocks dimension offset = nat (- ((0 - dimension) div offset))"

subsection \<open>Tensors\<close>

text \<open>
  A tensor is its shape and its elements in row-major order. \<open>entry x i j\<close> reads a
  two-dimensional tensor at row \<open>i\<close> and column \<open>j\<close>; \<open>tabulate2 m n f\<close> is the \<open>m\<close> by \<open>n\<close>
  tensor whose entry at \<open>(i, j)\<close> is \<open>f i j\<close>.
\<close>

record 'a tensor =
  shape :: "nat list"
  data :: "'a list"

definition entry :: "'a tensor \<Rightarrow> nat \<Rightarrow> nat \<Rightarrow> 'a" where
  "entry x i j = data x ! (i * (shape x ! 1) + j)"

definition row :: "'a tensor \<Rightarrow> nat \<Rightarrow> 'a list" where
  "row x i = map (entry x i) [0..<shape x ! 1]"

definition tabulate2 :: "nat \<Rightarrow> nat \<Rightarrow> (nat \<Rightarrow> nat \<Rightarrow> 'a) \<Rightarrow> 'a tensor" where
  "tabulate2 m n f = \<lparr>shape = [m, n], data = concat (map (\<lambda>i. map (f i) [0..<n]) [0..<m])\<rparr>"

text \<open>
  The torch operations that the search uses, on two-dimensional tensors: \<^verbatim>\<open>x.t()\<close>,
  \<^verbatim>\<open>x.mm(y)\<close>, \<^verbatim>\<open>x.norm(2, 1)\<close>, \<^verbatim>\<open>(x ** 2).sum(1)\<close>, and the in-place
  updates of a score matrix by a vector broadcast along its columns
  (\<^verbatim>\<open>v[:, None]\<close>, \<open>map_col\<close>) or along its rows (\<^verbatim>\<open>v[None, :]\<close>, \<open>map_row\<close>), and
  by a scalar (\<^verbatim>\<open>scores *= 2\<close>, \<open>scale_by\<close>). \<open>mm\<close> is only called on shapes \<open>(m, d)\<close> and
  \<open>(d, n)\<close>: the assertion on the feature dimensions comes first.
\<close>

definition tensor_t :: "'a tensor \<Rightarrow> 'a tensor" where
  "tensor_t x = tabulate2 (shape x ! 1) (shape x ! 0) (\<lambda>i j. entry x j i)"

definition mm :: "real tensor \<Rightarrow> real tensor \<Rightarrow> real tensor" where
  "mm x y = tabulate2 (shape x ! 0) (shape y ! 1)
     (\<lambda>i j. \<Sum>l\<leftarrow>[0..<shape x ! 1]. entry x i l * entry y l j)"

definition norm_rows :: "real tensor \<Rightarrow> real list" where
  "norm_rows x = map (\<lambda>i. sqrt (\<Sum>l\<leftarrow>[0..<shape x ! 1]. (entry x i l)\<^sup>2)) [0..<shape x ! 0]"

definition sumsq_rows :: "real tensor \<Rightarrow> real list" where
  "sumsq_rows x = map (\<lambda>i. \<Sum>l\<leftarrow>[0..<shape x ! 1]. (entry x i l)\<^sup>2) [0..<shape x ! 0]"

definition map_col :: "(real \<Rightarrow> real \<Rightarrow> real) \<Rightarrow> real tensor \<Rightarrow> real list \<Rightarrow> real tensor" where
  "map_col f s v = tabulate2 (shape s ! 0) (shape s ! 1) (\<lambda>i j. f (entry s i j) (v ! i))"

definition map_row :: "(real \<Rightarrow> real \<Rightarrow> real) \<Rightarrow> real tensor \<Rightarrow> real list \<Rightarrow> real tensor" where
  "map_row f s v = tabulate2 (shape s ! 0) (shape s ! 1) (\<lambda>i j. f (entry s i j) (v ! j))"

definition scale_by :: "real \<Rightarrow> real tensor \<Rightarrow> real tensor" where
  "scale_by c s = tabulate2 (shape s ! 0) (shape s ! 1) (\<lambda>i j. entry s i j * c)"

definition eps :: real where
  "eps = 1 / 10 ^ 9"

subsection \<open>The portable search\<close>

text \<open>
  Lines 113 to 125 of \<^verbatim>\<open>get_knn_pytorch\<close>: the score matrix, of shape \<open>(m, n)\<close>, by the
  \<^verbatim>\<open>if\<close>/\<^verbatim>\<open>elif\<close> chain on the distance name. When no branch is taken the
  variable \<^verbatim>\<open>scores\<close> is unbound.
\<close>

definition knn_scores :: "real tensor \<Rightarrow> real tensor \<Rightarrow> string \<Rightarrow> error + real tensor" where
  "knn_scores a b distance =
     (if distance = ''dot_product'' then Inr (mm a (tensor_t b))
      else if distance = ''cosine'' then
        (let scores = mm a (tensor_t b);
             scores = map_col (/) scores (map (\<lambda>x. x + eps) (norm_rows a));
             scores = map_row (/) scores (map (\<lambda>x. x + eps) (norm_rows b))
         in Inr scores)
      else if distance = ''l2'' then
        (let scores = mm a (tensor_t b);
             scores = scale_by 2 scores;
             scores = map_col (-) scores (sumsq_rows a);
             scores = map_row (-) scores (sumsq_rows b)
         in Inr scores)
      else Inl UnboundLocalError)"

text \<open>
  \<^verbatim>\<open>scores.topk(k=k, dim=0, largest=True)\<close>: along every column, the \<open>k\<close> largest values in
  descending order together with their row numbers; torch raises a
  \<^verbatim>\<open>RuntimeError\<close> when \<open>k\<close> exceeds the number of rows. torch leaves the order among
  equal values open; the embedding takes the stable order (the smaller row number first).
\<close>

definition topk :: "nat \<Rightarrow> real list \<Rightarrow> (real \<times> nat) list" where
  "topk k col = take k (sort_key (\<lambda>(v, i). - v) (zip col [0..<length col]))"

definition column :: "'a tensor \<Rightarrow> nat \<Rightarrow> 'a list" where
  "column s j = map (\<lambda>i. entry s i j) [0..<shape s ! 0]"

definition topk_dim0 :: "nat \<Rightarrow> real tensor \<Rightarrow> error + real tensor \<times> nat tensor" where
  "topk_dim0 k s =
     (if shape s ! 0 < k then Inl RuntimeError
      else Inr (tabulate2 k (shape s ! 1) (\<lambda>r j. fst (topk k (column s j) ! r)),
                tabulate2 k (shape s ! 1) (\<lambda>r j. snd (topk k (column s j) ! r))))"

definition ranked :: "real list \<Rightarrow> (real \<times> nat) list" where
  "ranked col = sort_key (\<lambda>(v, i). - v) (zip col [0..<length col])"

text \<open>\<^verbatim>\<open>get_knn_pytorch(a, b, k, distance)\<close>, lines 94 to 131.\<close>

definition get_knn_pytorch ::
  "real tensor \<Rightarrow> real tensor \<Rightarrow> int \<Rightarrow> string \<Rightarrow> error + real tensor \<times> nat tensor" where
  "get_knn_pytorch a b k distance =
     (case shape a of
        [m, d] \<Rightarrow>
          (case shape b of
             [n, d'] \<Rightarrow>
               if d' \<noteq> d then Inl AssertionError
               else if \<not> k > 0 then Inl AssertionError
               else if distance \<notin> set [''dot_product'', ''cosine'', ''l2''] then Inl AssertionError
               else
                 (case knn_scores a b distance of
                    Inl e \<Rightarrow> Inl e
                  | Inr scores \<Rightarrow>
                      (case topk_dim0 (nat k) scores of
                         Inl e \<Rightarrow> Inl e
                       | Inr (scores, indices) \<Rightarrow> Inr (tensor_t scores, tensor_t indices)))
           | _ \<Rightarrow> Inl ValueError)
      | _ \<Rightarrow> Inl ValueError)"

text \<open>
  The scores of the specification, between one query and one key given as coordinate
  lists: the dot product, the cosine with \<open>10\<^sup>-\<^sup>9\<close> added to each norm, and
  \<open>2 (q \<cdot> k) - \<parallel>q\<parallel>\<^sup>2 - \<parallel>k\<parallel>\<^sup>2\<close>; and the negative squared Euclidean distance.
\<close>

definition dot :: "real list \<Rightarrow> real list \<Rightarrow> real" where
  "dot u v = (\<Sum>(x, y)\<leftarrow>zip u v. x * y)"

definition norm2 :: "real list \<Rightarrow> real" where
  "norm2 u = sqrt (\<Sum>x\<leftarrow>u. x\<^sup>2)"

definition pair_score :: "string \<Rightarrow> real list \<Rightarrow> real list \<Rightarrow> real" where
  "pair_score distance query key =
     (if distance = ''dot_product'' then dot query key
      else if distance = ''cosine'' then dot query key / ((norm2 query + eps) * (norm2 key + eps))
      else 2 * dot query key - (norm2 query)\<^sup>2 - (norm2 key)\<^sup>2)"



text \<open>A small example: three keys and two queries in two dimensions.\<close>

definition A1 :: "real tensor" where "A1 = \<lparr>shape = [3, 2], data = [1, 0, 0, 1, 3, 4]\<rparr>"
definition B1 :: "real tensor" where "B1 = \<lparr>shape = [2, 2], data = [1, 1, 0, 2]\<rparr>"

subsection \<open>The native search\<close>

text \<open>
  \<^verbatim>\<open>get_knn_faiss\<close> passes raw buffers to the native library. Of a tensor it uses only the
  device, the contiguity flag, the element type, the size and the address, so the
  embedding carries a handle with these fields. The library call \<^verbatim>\<open>faiss.bfKnn\<close> is a
  parameter: it tells whether the call returns (filling the two output buffers) or raises.
  \<^verbatim>\<open>torch.empty\<close> raises a \<^verbatim>\<open>RuntimeError\<close> for a negative extent; the addresses
  of the two fresh buffers are parameters as well.
\<close>

datatype dtype = Float32 | Float64 | Int64

record tensor_handle =
  device :: nat
  is_contiguous :: bool
  dtype :: dtype
  size :: "nat list"
  data_ptr :: nat
  storage_offset :: nat

datatype metric = METRIC_INNER_PRODUCT | METRIC_L2

record GpuDistanceParams =
  args_metric :: metric
  args_k :: int
  args_dims :: nat
  args_vectors :: nat
  args_vectorsRowMajor :: bool
  args_numVectors :: nat
  args_queries :: nat
  args_queriesRowMajor :: bool
  args_numQueries :: nat
  args_outDistances :: nat
  args_outIndices :: nat

definition swig_ptr_from_FloatTensor :: "tensor_handle \<Rightarrow> error + nat" where
  "swig_ptr_from_FloatTensor x =
     (if \<not> is_contiguous x then Inl AssertionError
      else if dtype x \<noteq> Float32 then Inl AssertionError
      else Inr (data_ptr x + storage_offset x * 4))"

definition swig_ptr_from_IndicesTensor :: "tensor_handle \<Rightarrow> error + nat" where
  "swig_ptr_from_IndicesTensor x =
     (if \<not> is_contiguous x then Inl AssertionError
      else if dtype x \<noteq> Int64 then Inl AssertionError
      else Inr (data_ptr x + storage_offset x * 8))"

definition torch_empty :: "nat \<Rightarrow> nat \<Rightarrow> int \<Rightarrow> nat \<Rightarrow> dtype \<Rightarrow> error + tensor_handle" where
  "torch_empty address rows cols dev ty =
     (if cols < 0 then Inl RuntimeError
      else Inr \<lparr>device = dev, is_contiguous = True, dtype = ty, size = [rows, nat cols],
                data_ptr = address, storage_offset = 0\<rparr>)"

definition get_knn_faiss ::
  "(GpuDistanceParams \<Rightarrow> bool) \<Rightarrow> nat \<times> nat \<Rightarrow> tensor_handle \<Rightarrow> tensor_handle \<Rightarrow> int \<Rightarrow> string
     \<Rightarrow> error + tensor_handle \<times> tensor_handle" where
  "get_knn_faiss bfKnn fresh xb xq k distance =
     (if device xb \<noteq> device xq then Inl AssertionError
      else if distance \<notin> set [''dot_product'', ''l2''] then Inl AssertionError
      else
        let metric = (if distance = ''dot_product'' then METRIC_INNER_PRODUCT else METRIC_L2) in
        case swig_ptr_from_FloatTensor xq of Inl e \<Rightarrow> Inl e | Inr xq_ptr \<Rightarrow>
        case swig_ptr_from_FloatTensor xb of Inl e \<Rightarrow> Inl e | Inr xb_ptr \<Rightarrow>
        (case size xq of
           [nq, d1] \<Rightarrow>
             (case size xb of
                [nb, d2] \<Rightarrow>
                  if d1 \<noteq> d2 then Inl AssertionError
                  else
                    case torch_empty (fst fresh) nq k (device xb) Float32 of Inl e \<Rightarrow> Inl e | Inr D \<Rightarrow>
                    case torch_empty (snd fresh) nq k (device xb) Int64 of Inl e \<Rightarrow> Inl e | Inr I \<Rightarrow>
                    case swig_ptr_from_FloatTensor D of Inl e \<Rightarrow> Inl e | Inr D_ptr \<Rightarrow>
                    case swig_ptr_from_IndicesTensor I of Inl e \<Rightarrow> Inl e | Inr I_ptr \<Rightarrow>
                    let args = \<lparr>args_metric = metric, args_k = k, args_dims = d1,
                                args_vectors = xb_ptr, args_vectorsRowMajor = False,
                                args_numVectors = nb, args_queries = xq_ptr,
                                args_queriesRowMajor = False, args_numQueries = nq,
                                args_outDistances = D_ptr, args_outIndices = I_ptr\<rparr>
                    in if bfKnn args then Inr (D, I) else Inl BackendError
              | _ \<Rightarrow> Inl ValueError)
         | _ \<Rightarrow> Inl ValueError))"

definition XB :: tensor_handle where
  "XB = \<lparr>device = 0, is_contiguous = True, dtype = Float32, size = [4, 2],
          data_ptr = 4096, storage_offset = 0\<rparr>"

definition XQ :: tensor_handle where
  "XQ = \<lparr>device = 0, is_contiguous = True, dtype = Float32, size = [3, 2],
          data_ptr = 8192, storage_offset = 0\<rparr>"

subsection \<open>The candidate combiner\<close>

text \<open>
  The torch operations of \<^verbatim>\<open>cartesian_product\<close>, on the row-major element list.
  \<open>chunks n xs\<close> cuts a list into consecutive pieces of length \<open>n\<close>: the pieces along the
  last dimension. \<open>unsqueeze_last\<close> is \<^verbatim>\<open>x.unsqueeze(-1)\<close>; \<open>repeat_last r\<close> is
  \<^verbatim>\<open>x.repeat(1, ..., 1, r)\<close>, which tiles every piece along the last dimension \<open>r\<close> times;
  \<open>view\<close> changes the shape of a contiguous tensor and fails when the element counts
  differ; \<open>cat_last\<close> is \<^verbatim>\<open>torch.cat\<close> along the last dimension, which joins the
  pieces of its two arguments one by one and fails when the other extents differ.
\<close>

definition chunks :: "nat \<Rightarrow> 'a list \<Rightarrow> 'a list list" where
  "chunks n xs = map (\<lambda>i. take n (drop (i * n) xs)) [0..<length xs div n]"

definition unsqueeze_last :: "'a tensor \<Rightarrow> 'a tensor" where
  "unsqueeze_last x = \<lparr>shape = shape x @ [1], data = data x\<rparr>"

definition repeat_last :: "nat \<Rightarrow> 'a tensor \<Rightarrow> 'a tensor" where
  "repeat_last r x =
     \<lparr>shape = butlast (shape x) @ [last (shape x) * r],
      data = concat (map (\<lambda>c. concat (replicate r c)) (chunks (last (shape x)) (data x)))\<rparr>"

definition view :: "nat list \<Rightarrow> 'a tensor \<Rightarrow> error + 'a tensor" where
  "view s x = (if prod_list s = prod_list (shape x) then Inr \<lparr>shape = s, data = data x\<rparr>
               else Inl RuntimeError)"

definition cat_last :: "'a tensor \<Rightarrow> 'a tensor \<Rightarrow> error + 'a tensor" where
  "cat_last x y =
     (if butlast (shape x) \<noteq> butlast (shape y) then Inl RuntimeError
      else Inr \<lparr>shape = butlast (shape x) @ [last (shape x) + last (shape y)],
                data = concat (map2 (@) (chunks (last (shape x)) (data x))
                                        (chunks (last (shape y)) (data y)))\<rparr>)"

text \<open>\<^verbatim>\<open>cartesian_product(a, b)\<close>, lines 56 to 74.\<close>

definition cartesian_product :: "'a tensor \<Rightarrow> 'a tensor \<Rightarrow> error + 'a tensor" where
  "cartesian_product a b =
     (case shape a of
        [n1, d1] \<Rightarrow>
          (case shape b of
             [n2, d2] \<Rightarrow>
               if n1 \<noteq> n2 then Inl AssertionError
               else
                 let left = unsqueeze_last (repeat_last d2 (unsqueeze_last a)) in
                 case view [n2, d1, d2] (repeat_last d1 b) of Inl e \<Rightarrow> Inl e | Inr v \<Rightarrow>
                 case cat_last left (unsqueeze_last v) of Inl e \<Rightarrow> Inl e | Inr c \<Rightarrow>
                 view [n1, d1 * d2, 2] c
           | _ \<Rightarrow> Inl ValueError)
      | _ \<Rightarrow> Inl ValueError)"

text \<open>
  Reading the result of shape \<open>(n, p, 2)\<close>: \<open>pair_at x r p\<close> is the pair at position \<open>p\<close> of
  row \<open>r\<close>, and \<open>pairs x r\<close> lists the pairs of row \<open>r\<close> in order. A tensor is well formed
  when it has as many elements as its shape says.
\<close>

definition entry3 :: "'a tensor \<Rightarrow> nat \<Rightarrow> nat \<Rightarrow> nat \<Rightarrow> 'a" where
  "entry3 x r p c = data x ! ((r * (shape x ! 1) + p) * (shape x ! 2) + c)"

definition pair_at :: "'a tensor \<Rightarrow> nat \<Rightarrow> nat \<Rightarrow> 'a \<times> 'a" where
  "pair_at x r p = (entry3 x r p 0, entry3 x r p 1)"

definition pairs :: "'a tensor \<Rightarrow> nat \<Rightarrow> ('a \<times> 'a) list" where
  "pairs x r = map (pair_at x r) [0..<shape x ! 1]"

definition wf_tensor :: "'a tensor \<Rightarrow> bool" where
  "wf_tensor x \<longleftrightarrow> length (data x) = prod_list (shape x)"

text \<open>
  The element lists of the two operands of \<^verbatim>\<open>torch.cat\<close>, and the list that joining
  one-element pieces yields.
\<close>

definition left_data :: "nat \<Rightarrow> 'a list \<Rightarrow> 'a list" where
  "left_data d2 A = concat (map (replicate d2) A)"

definition right_data :: "nat \<Rightarrow> nat \<Rightarrow> 'a list \<Rightarrow> 'a list" where
  "right_data d1 d2 B = concat (map (\<lambda>c. concat (replicate d1 c)) (chunks d2 B))"

definition interleave :: "'a list \<Rightarrow> 'a list \<Rightarrow> 'a list" where
  "interleave L R = concat (map (\<lambda>(x, y). [x, y]) (zip L R))"

text \<open>An example: two rows of two and of three indices.\<close>

definition IA :: "nat tensor" where "IA = \<lparr>shape = [2, 2], data = [5, 7, 6, 8]\<rparr>"
definition IB :: "nat tensor" where "IB = \<lparr>shape = [2, 3], data = [1, 2, 3, 4, 5, 6]\<rparr>"

subsection \<open>The key generators\<close>

text \<open>
  A numpy matrix is the list of its rows. The generator \<^verbatim>\<open>np.random.RandomState(seed)\<close> is
  a parameter: \<open>randn seed n d\<close> is the matrix that \<^verbatim>\<open>rng.randn(n, d)\<close> draws, and
  \<open>random_sample seed n d\<close> the matrix of unit-interval draws behind
  \<^verbatim>\<open>rng.uniform(low, high, (n, d))\<close>, which numpy computes as
  \<open>low + (high - low) * u\<close> for a draw \<open>u\<close> from \<open>[0, 1)\<close>.

  Floating-point division does not raise in numpy: a zero row divided by its zero norm is
  a row of NaN. An entry of a returned matrix is therefore an optional real, \<open>None\<close> being
  a value that is not a finite number. The cast \<^verbatim>\<open>astype(np.float32)\<close> keeps every value in
  exact arithmetic.
\<close>

definition np_true_divide :: "real \<Rightarrow> real \<Rightarrow> real option" where
  "np_true_divide x y = (if y = 0 then None else Some (x / y))"

definition normalize_rows :: "real list list \<Rightarrow> real option list list" where
  "normalize_rows X = map (\<lambda>xs. map (\<lambda>x. np_true_divide x (norm2 xs)) xs) X"

definition astype_float32 :: "real option list list \<Rightarrow> real option list list" where
  "astype_float32 X = X"

definition rng_uniform :: "real list list \<Rightarrow> real \<Rightarrow> real \<Rightarrow> real list list" where
  "rng_uniform U low high = map (map (\<lambda>u. low + (high - low) * u)) U"

text \<open>\<^verbatim>\<open>get_gaussian_keys\<close>, lines 18 to 26, and \<^verbatim>\<open>get_uniform_keys\<close>, lines 29 to 38.
  \<^verbatim>\<open>1 / math.sqrt(dim)\<close> raises \<^verbatim>\<open>ZeroDivisionError\<close> for \<open>dim = 0\<close>.\<close>

definition get_gaussian_keys ::
  "(nat \<Rightarrow> nat \<Rightarrow> nat \<Rightarrow> real list list) \<Rightarrow> nat \<Rightarrow> nat \<Rightarrow> bool \<Rightarrow> nat
     \<Rightarrow> real option list list" where
  "get_gaussian_keys randn n_keys dimension normalized seed =
     (let X = randn seed n_keys dimension;
          X = (if normalized then normalize_rows X else map (map Some) X)
      in astype_float32 X)"

definition get_uniform_keys ::
  "(nat \<Rightarrow> nat \<Rightarrow> nat \<Rightarrow> real list list) \<Rightarrow> nat \<Rightarrow> nat \<Rightarrow> bool \<Rightarrow> nat
     \<Rightarrow> error + real option list list" where
  "get_uniform_keys random_sample n_keys dimension normalized seed =
     (if dimension = 0 then Inl ZeroDivisionError
      else
        let bound = 1 / sqrt (real dimension);
            X = rng_uniform (random_sample seed n_keys dimension) (- bound) bound;
            X = (if normalized then normalize_rows X else map (map Some) X)
        in Inr (astype_float32 X))"



definition unit_norm :: "real option list \<Rightarrow> bool" where
  "unit_norm xs \<longleftrightarrow> None \<notin> set xs \<and> \<bar>norm2 (map the xs) - 1\<bar> \<le> 1 / 10 ^ 5"

definition rounding_robust_unit_norm :: "real option list \<Rightarrow> bool" where
  "rounding_robust_unit_norm xs \<longleftrightarrow>
     (\<forall>r. (\<forall>x. Some x \<in> set xs \<longrightarrow> \<bar>r x - x\<bar> \<le> \<bar>x\<bar> / 2 ^ 24)
          \<longrightarrow> unit_norm (map (map_option r) xs))"

section \<open>Properties of floating-point rounding\<close>

lemma round_half_even_of_int [simp]: "round_half_even (of_int z) = z"
  by (simp add: round_half_even_def)

lemma round_half_even_bounds:
  "of_int (round_half_even y) \<le> y + 1 / 2" "y - 1 / 2 \<le> of_int (round_half_even y)"
  unfolding round_half_even_def Let_def by (auto; linarith)+

lemma round_half_even_mono:
  assumes "a \<le> b"
  shows "round_half_even a \<le> round_half_even b"
proof (cases "\<lfloor>a\<rfloor> = \<lfloor>b\<rfloor>")
  case True
  then show ?thesis
    using assms unfolding round_half_even_def Let_def by auto
next
  case False
  with assms have lt: "\<lfloor>a\<rfloor> < \<lfloor>b\<rfloor>"
    using floor_mono [OF assms] by linarith
  have "round_half_even a \<le> \<lfloor>a\<rfloor> + 1"
    unfolding round_half_even_def Let_def by auto
  moreover have "\<lfloor>b\<rfloor> \<le> round_half_even b"
    unfolding round_half_even_def Let_def by auto
  ultimately show ?thesis using lt by linarith
qed

lemma binade_bounds:
  assumes "x \<noteq> 0"
  shows "2 powi binade x \<le> \<bar>x\<bar>" and "\<bar>x\<bar> < 2 powi (binade x + 1)"
proof -
  have pos: "0 < \<bar>x\<bar>" using assms by simp
  have "2 powr real_of_int (binade x) \<le> \<bar>x\<bar> \<and> \<bar>x\<bar> < 2 powr (real_of_int (binade x) + 1)"
    using floor_log_eq_powr_iff [OF pos, of 2 "binade x"] by (simp add: binade_def)
  moreover have "real_of_int (binade x) + 1 = real_of_int (binade x + 1)" by simp
  ultimately show "2 powi binade x \<le> \<bar>x\<bar>" and "\<bar>x\<bar> < 2 powi (binade x + 1)"
    by (simp_all only: powr_real_of_int' [of 2, simplified])
qed

lemma binade_eqI:
  assumes "2 powi e \<le> \<bar>x\<bar>" and "\<bar>x\<bar> < 2 powi (e + 1)"
  shows "binade x = e"
proof -
  have p: "(0::real) < 2 powi e" by simp
  with assms(1) have pos: "0 < \<bar>x\<bar>" by linarith
  have "2 powr real_of_int e \<le> \<bar>x\<bar> \<and> \<bar>x\<bar> < 2 powr (real_of_int e + 1)"
    using assms powr_real_of_int' [of 2 e] powr_real_of_int' [of 2 "e + 1"] by simp
  then show ?thesis
    using floor_log_eq_powr_iff [OF pos, of 2 e] by (simp add: binade_def)
qed

lemma round_to_precision_eval:
  assumes "2 powi e \<le> \<bar>x\<bar>" and "\<bar>x\<bar> < 2 powi (e + 1)"
  shows "round_to_precision p x
       = of_int (round_half_even (x / 2 powi (e - int p + 1))) * 2 powi (e - int p + 1)"
proof -
  have "(0::real) < 2 powi e" by simp
  with assms(1) have "0 < \<bar>x\<bar>" by linarith
  then have "x \<noteq> 0" by auto
  then show ?thesis
    by (simp add: round_to_precision_def Let_def binade_eqI [OF assms])
qed

lemma powi2_le_iff: "(2::real) powi a \<le> 2 powi b \<longleftrightarrow> a \<le> b"
proof
  assume le: "(2::real) powi a \<le> 2 powi b"
  show "a \<le> b"
  proof (rule ccontr)
    assume "\<not> a \<le> b"
    then have "b < a" by simp
    then have "(2::real) powi b < 2 powi a"
      by (rule power_int_strict_increasing) simp
    with le show False by simp
  qed
next
  assume "a \<le> b"
  then show "(2::real) powi a \<le> 2 powi b"
    by (rule power_int_increasing) simp
qed

lemma powi2_less_iff: "(2::real) powi a < 2 powi b \<longleftrightarrow> a < b"
  using powi2_le_iff [of b a] by (simp add: not_le [symmetric])

lemma round_to_precision_dyadic:
  assumes "\<bar>m\<bar> < 2 ^ p"
  shows "round_to_precision p (of_int m * 2 powi k) = of_int m * 2 powi k"
proof (cases "m = 0")
  case True
  then show ?thesis by (simp add: round_to_precision_def)
next
  case False
  define x :: real where "x = of_int m * 2 powi k"
  have xnz: "x \<noteq> 0" using False by (simp add: x_def)
  define e where "e = binade x"
  have "2 powi e \<le> \<bar>x\<bar>" unfolding e_def using xnz by (rule binade_bounds)
  also have "\<bar>x\<bar> = of_int \<bar>m\<bar> * 2 powi k"
    by (simp add: x_def abs_mult)
  also have "\<dots> < 2 ^ p * 2 powi k"
  proof -
    have "(of_int \<bar>m\<bar> :: real) < of_int (2 ^ p)"
      using assms by (simp only: of_int_less_iff)
    then show ?thesis by simp
  qed
  also have "\<dots> = 2 powi (int p + k)"
    by (simp add: power_int_add)
  finally have "e < int p + k"
    by (simp only: powi2_less_iff)
  then obtain j :: nat where j: "k - (e - int p + 1) = int j"
    by (metis diff_ge_0_iff_ge zle_iff_zadd add.commute add_diff_cancel_left' zless_imp_add1_zle diff_add_eq)
  have "x / 2 powi (e - int p + 1) = of_int m * 2 powi (k - (e - int p + 1))"
    by (simp add: x_def power_int_diff)
  also have "\<dots> = of_int (m * 2 ^ j)"
    by (simp add: j)
  finally have q: "x / 2 powi (e - int p + 1) = of_int (m * 2 ^ j)" .
  have "round_to_precision p x = of_int (m * 2 ^ j) * 2 powi (e - int p + 1)"
    using xnz unfolding round_to_precision_def e_def [symmetric] Let_def q
    by (simp only: round_half_even_of_int if_False)
  also have "\<dots> = x / 2 powi (e - int p + 1) * 2 powi (e - int p + 1)"
    by (simp only: q)
  also have "\<dots> = x" by simp
  finally show ?thesis by (simp add: x_def)
qed

lemma binade_mono:
  assumes "0 < x" and "x \<le> y"
  shows "binade x \<le> binade y"
proof -
  have "log 2 \<bar>x\<bar> \<le> log 2 \<bar>y\<bar>" using assms by simp
  then show ?thesis unfolding binade_def by (rule floor_mono)
qed

lemma round_to_precision_binade:
  assumes "0 < p" and "0 < x"
  shows "2 powi binade x \<le> round_to_precision p x"
    and "round_to_precision p x \<le> 2 powi (binade x + 1)"
proof -
  define e where "e = binade x"
  define u :: real where "u = 2 powi (e - int p + 1)"
  have u: "0 < u" by (simp add: u_def)
  have xnz: "x \<noteq> 0" using assms(2) by simp
  have R: "round_to_precision p x = of_int (round_half_even (x / u)) * u"
    using xnz by (simp add: round_to_precision_def Let_def e_def u_def)
  have lo: "2 powi e \<le> x" and hi: "x < 2 powi (e + 1)"
    using binade_bounds [OF xnz] assms(2) by (simp_all add: e_def)
  obtain q :: nat where q: "p = Suc q" using assms(1) by (cases p) simp_all
  have e1: "2 powi e = of_int (2 ^ q) * u"
  proof -
    have "e = int q + (e - int p + 1)" by (simp add: q)
    then have "(2::real) powi e = 2 powi (int q) * 2 powi (e - int p + 1)"
      by (metis power_int_add zero_neq_numeral)
    then show ?thesis by (simp add: u_def)
  qed
  have e2: "2 powi (e + 1) = of_int (2 ^ p) * u"
  proof -
    have "e + 1 = int p + (e - int p + 1)" by simp
    then have "(2::real) powi (e + 1) = 2 powi (int p) * 2 powi (e - int p + 1)"
      by (metis power_int_add zero_neq_numeral)
    then show ?thesis by (simp add: u_def)
  qed
  have "of_int (2 ^ q) \<le> x / u"
    using lo u unfolding e1 by (simp add: field_simps)
  then have "round_half_even (of_int (2 ^ q)) \<le> round_half_even (x / u)"
    by (rule round_half_even_mono)
  then have "(of_int (2 ^ q) :: real) \<le> of_int (round_half_even (x / u))"
    by (simp only: round_half_even_of_int of_int_le_iff)
  then have "of_int (2 ^ q) * u \<le> of_int (round_half_even (x / u)) * u"
    using u by (simp only: mult_le_cancel_right_pos)
  then show "2 powi binade x \<le> round_to_precision p x"
    unfolding R e_def [symmetric] e1 .
  have "x / u \<le> of_int (2 ^ p)"
    using hi u unfolding e2 by (simp add: field_simps)
  then have "round_half_even (x / u) \<le> round_half_even (of_int (2 ^ p))"
    by (rule round_half_even_mono)
  then have "(of_int (round_half_even (x / u)) :: real) \<le> of_int (2 ^ p)"
    by (simp only: round_half_even_of_int of_int_le_iff)
  then have "of_int (round_half_even (x / u)) * u \<le> of_int (2 ^ p) * u"
    using u by (simp only: mult_le_cancel_right_pos)
  then show "round_to_precision p x \<le> 2 powi (binade x + 1)"
    unfolding R e_def [symmetric] e2 .
qed

lemma round_to_precision_pos:
  assumes "0 < p" and "0 < x"
  shows "0 < round_to_precision p x"
proof -
  have "(0::real) < 2 powi binade x" by simp
  with round_to_precision_binade(1) [OF assms] show ?thesis by linarith
qed

lemma round_to_precision_mono_pos:
  assumes "0 < p" and "0 < x" and "x \<le> y"
  shows "round_to_precision p x \<le> round_to_precision p y"
proof (cases "binade x = binade y")
  case True
  define u :: real where "u = 2 powi (binade y - int p + 1)"
  have u: "0 < u" by (simp add: u_def)
  have "x / u \<le> y / u" using assms(3) u by (simp add: divide_right_mono)
  then have "round_half_even (x / u) \<le> round_half_even (y / u)"
    by (rule round_half_even_mono)
  then have "(of_int (round_half_even (x / u)) :: real) * u \<le> of_int (round_half_even (y / u)) * u"
    using u by (simp only: mult_le_cancel_right_pos of_int_le_iff)
  then show ?thesis
    using assms(2,3) True by (simp add: round_to_precision_def Let_def u_def)
next
  case False
  have y: "0 < y" using assms(2,3) by linarith
  from False binade_mono [OF assms(2,3)] have "binade x + 1 \<le> binade y" by linarith
  then have "(2::real) powi (binade x + 1) \<le> 2 powi binade y"
    by (simp only: powi2_le_iff)
  with round_to_precision_binade(2) [OF assms(1,2)] round_to_precision_binade(1) [OF assms(1) y]
  show ?thesis by linarith
qed

lemma round_to_precision_of_int:
  assumes "\<bar>m\<bar> < 2 ^ p"
  shows "round_to_precision p (of_int m) = of_int m"
  using round_to_precision_dyadic [OF assms, of 0] by simp

lemma ceiling_float64_divide:
  fixes a b :: int
  assumes "0 < b" and "0 < a" and "a \<le> 2 ^ 52"
  shows "\<lceil>float64_round (of_int a / of_int b)\<rceil> = \<lceil>(of_int a / of_int b :: real)\<rceil>"
proof -
  define x :: real where "x = of_int a / of_int b"
  define n where "n = \<lceil>x\<rceil>"
  have xpos: "0 < x" using assms by (simp add: x_def)
  have p53: "(0::nat) < 53" by simp
  have n_ge: "x \<le> of_int n" by (simp add: n_def)
  have n_lt: "of_int n - 1 < x" unfolding n_def by linarith
  have "x \<le> of_int a"
  proof -
    have "(1::real) \<le> of_int b" using assms(1) by simp
    then have "of_int a / of_int b \<le> (of_int a :: real) / 1"
      using assms(2) by (intro divide_left_mono) simp_all
    then show ?thesis by (simp add: x_def)
  qed
  then have "n \<le> a" unfolding n_def by (simp add: ceiling_le_iff)
  moreover have "0 < n" using xpos unfolding n_def by simp
  ultimately have nb: "\<bar>n\<bar> < 2 ^ 53" using assms(3) by simp
  have "float64_round x \<le> float64_round (of_int n)"
    unfolding float64_round_def using p53 xpos n_ge by (rule round_to_precision_mono_pos)
  also have "\<dots> = of_int n"
    unfolding float64_round_def using nb by (rule round_to_precision_of_int)
  finally have upper: "float64_round x \<le> of_int n" .
  have "(n - 1) * b < a"
  proof -
    have "of_int (n - 1) * of_int b < (of_int a :: real)"
      using n_lt assms(1) by (simp add: x_def field_simps)
    then show ?thesis by (metis of_int_less_iff of_int_mult)
  qed
  then have nb1: "(n - 1) * b + 1 \<le> a" by simp
  have "2 \<le> (2::nat)" "1 \<le> nat b" using assms(1) by simp_all
  from ex_power_ivl1 [OF this] obtain j where j: "2 ^ j \<le> nat b" "nat b < 2 ^ (j + 1)" by blast
  define k where "k = j + 1"
  have kb: "b < 2 ^ k" "(2::int) ^ k \<le> 2 * b"
  proof -
    have "int (nat b) < int (2 ^ (j + 1))" using j(2) by (simp only: of_nat_less_iff)
    then show "b < 2 ^ k" using assms(1) by (simp add: k_def)
    have "int (2 ^ j) \<le> int (nat b)" using j(1) by (simp only: of_nat_le_iff)
    then show "(2::int) ^ k \<le> 2 * b" using assms(1) by (simp add: k_def)
  qed
  define m where "m = (n - 1) * 2 ^ k + 1"
  define y :: real where "y = of_int m * 2 powi (- int k)"
  have n1: "0 \<le> n - 1" using \<open>0 < n\<close> by simp
  have "(n - 1) * 2 ^ k \<le> (n - 1) * (2 * b)"
    using kb(2) n1 by (rule mult_left_mono)
  then have "m \<le> 2 * ((n - 1) * b) + 1" by (simp add: m_def algebra_simps)
  also have "\<dots> < 2 * a" using nb1 by simp
  also have "\<dots> \<le> 2 ^ 53" using assms(3) by simp
  finally have m_lt: "m < 2 ^ 53" .
  have m_pos: "0 < m" using n1 by (simp add: m_def add_pos_nonneg)
  have mb: "\<bar>m\<bar> < 2 ^ 53" using m_lt m_pos by simp
  have y_eq: "y = of_int (n - 1) + 1 / 2 ^ k"
    by (simp add: y_def m_def power_int_minus field_simps)
  have ypos: "0 < y"
    unfolding y_def using m_pos by simp
  have "(1::real) / 2 ^ k \<le> 1 / of_int b"
  proof -
    have "(of_int b :: real) \<le> of_int (2 ^ k)" using kb(1) by (simp only: of_int_le_iff)
    then show ?thesis using assms(1) by (simp add: frac_le)
  qed
  moreover have "of_int (n - 1) + 1 / of_int b \<le> x"
  proof -
    have bp: "(0::real) < of_int b" using assms(1) by simp
    have "(of_int ((n - 1) * b + 1) :: real) \<le> of_int a" using nb1 by (simp only: of_int_le_iff)
    then have "(of_int ((n - 1) * b + 1) :: real) / of_int b \<le> of_int a / of_int b"
      using bp by (simp only: divide_right_mono less_imp_le)
    moreover have "(of_int ((n - 1) * b + 1) :: real) / of_int b = of_int (n - 1) + 1 / of_int b"
      using bp by (simp add: add_divide_distrib)
    ultimately show ?thesis by (simp add: x_def)
  qed
  ultimately have yx: "y \<le> x" unfolding y_eq by linarith
  have "y = float64_round y"
    unfolding float64_round_def y_def using mb by (simp only: round_to_precision_dyadic)
  also have "\<dots> \<le> float64_round x"
    unfolding float64_round_def using p53 ypos yx by (rule round_to_precision_mono_pos)
  finally have "y \<le> float64_round x" .
  moreover have "of_int n - 1 < y" unfolding y_eq by simp
  ultimately have lower: "of_int n - 1 < float64_round x" by linarith
  from lower upper have "\<lceil>float64_round x\<rceil> = n" by (rule ceiling_unique)
  then show ?thesis by (simp add: x_def n_def)
qed

section \<open>Properties of the dimension slicer\<close>

lemma concat_map_if_filter:
  "concat (map (\<lambda>y. if P y then [f y] else []) ys) = map f (filter P ys)"
  by (induction ys) simp_all

lemma enumerate_map_upt:
  "enumerate 0 (map f [0..<n]) = map (\<lambda>i. (i, f i)) [0..<n]"
  by (simp add: enumerate_eq_zip zip_map2 zip_same_conv_map)

lemma arange_pos:
  assumes "0 < offset" and "0 < dimension" and "dimension \<le> 2 ^ 52"
  shows "arange 0 dimension offset = Inr (map (\<lambda>i. int i * offset) [0..<nblocks dimension offset])"
proof -
  have "\<lceil>float64_round (of_int dimension / of_int offset)\<rceil> = - (- dimension div offset)"
    using ceiling_float64_divide [OF assms] by (simp only: ceiling_divide_eq_div)
  then show ?thesis
    using assms(1) by (simp add: arange_def nblocks_def)
qed

lemma slices_of_starts:
  assumes "0 < head_id"
    and "arange 0 dimension (dimension div 2 ^ (head_id + 1))
           = Inr (map (\<lambda>i. int i * (dimension div 2 ^ (head_id + 1))) [0..<n])"
  shows "get_slices dimension head_id =
    Inr (map (block (dimension div 2 ^ (head_id + 1))) (filter even [0..<n])
       @ map (block (dimension div 2 ^ (head_id + 1))) (filter odd [0..<n]))"
proof -
  define offset where "offset = dimension div 2 ^ (head_id + 1)"
  have e: "(\<lambda>i::nat. i mod 2 = 0) = even" "(\<lambda>i::nat. i mod 2 = Suc 0) = odd"
    by (auto simp: fun_eq_iff even_iff_mod_2_eq_zero odd_iff_mod_2_eq_one)
  have c1: "concat (map (\<lambda>(i, x). if i mod 2 = 0 then [(x, x + offset)] else [])
               (map (\<lambda>i. (i, int i * offset)) [0..<n]))
        = map (block offset) (filter even [0..<n])"
    using concat_map_if_filter [of "\<lambda>i. i mod 2 = 0" "block offset" "[0..<n]"]
    by (simp add: o_def block_def e concat_map_if_filter)
  have c2: "concat (map (\<lambda>(i, x). if i mod 2 = 1 then [(x, x + offset)] else [])
               (map (\<lambda>i. (i, int i * offset)) [0..<n]))
        = map (block offset) (filter odd [0..<n])"
    using concat_map_if_filter [of "\<lambda>i. i mod 2 = 1" "block offset" "[0..<n]"]
    by (simp add: o_def block_def e concat_map_if_filter)
  show ?thesis
    using assms unfolding get_slices_def offset_def [symmetric] Let_def
    by (simp add: enumerate_map_upt c1 c2 del: One_nat_def map_map)
qed

lemma get_slices_blocks:
  assumes "0 < head_id" and "offset = dimension div 2 ^ (head_id + 1)" and "0 < offset"
    and "dimension \<le> 2 ^ 52"
  shows "get_slices dimension head_id =
    Inr (map (block offset) (filter even [0..<nblocks dimension offset])
       @ map (block offset) (filter odd [0..<nblocks dimension offset]))"
proof -
  have "(2::int) ^ (head_id + 1) \<le> dimension"
    using assms(2,3) by (simp add: pos_imp_zdiv_pos_iff)
  moreover have "(0::int) < 2 ^ (head_id + 1)" by simp
  ultimately have "0 < dimension" by linarith
  from arange_pos [OF assms(3) this assms(4)] show ?thesis
    unfolding assms(2) by (rule slices_of_starts [OF assms(1)])
qed

lemma block_disjoint:
  assumes "0 < offset" and "i \<noteq> j"
  shows "slice_range (block offset i) \<inter> slice_range (block offset j) = {}"
proof -
  have le: "int a * offset + offset \<le> int b * offset" if "a < b" for a b :: nat
  proof -
    from that have "int a + 1 \<le> int b" by simp
    then have "(int a + 1) * offset \<le> int b * offset"
      using assms(1) by (simp only: mult_le_cancel_right) simp
    then show ?thesis by (simp add: algebra_simps)
  qed
  from assms(2) consider "i < j" | "j < i" by (cases i j rule: linorder_cases) auto
  then show ?thesis
  proof cases
    case 1
    from le [OF 1] show ?thesis by (auto simp: slice_range_def block_def)
  next
    case 2
    from le [OF 2] show ?thesis by (auto simp: slice_range_def block_def)
  qed
qed

lemma blocks_disjoint:
  assumes "0 < offset"
  shows "slices_disjoint (map (block offset) (filter even [0..<n]) @ map (block offset) (filter odd [0..<n]))"
proof -
  let ?D = "\<lambda>i j. slice_range (block offset i) \<inter> slice_range (block offset j) = {}"
  have lt: "sorted_wrt (<) (filter P [0..<n])" for P :: "nat \<Rightarrow> bool"
    by (rule sorted_wrt_filter) (simp add: sorted_wrt_upt)
  have mono: "sorted_wrt ?D (filter P [0..<n])" for P :: "nat \<Rightarrow> bool"
    using lt [of P] by (rule sorted_wrt_mono_rel [rotated]) (simp add: block_disjoint [OF assms])
  have cross: "?D i j" if "even i" "odd j" for i j
    using that by (intro block_disjoint [OF assms]) auto
  show ?thesis
    unfolding slices_disjoint_def
    by (simp add: sorted_wrt_append sorted_wrt_map mono cross)
qed

lemma blocks_union:
  assumes "0 < offset"
  shows "(\<Union>i \<in> {0..<n}. slice_range (block offset i)) = {0..<int n * offset}"
proof (induction n)
  case 0
  then show ?case by simp
next
  case (Suc n)
  have "0 \<le> int n * offset" using assms by simp
  then have "{0..<int n * offset} \<union> {int n * offset..<int n * offset + offset}
        = {0..<int n * offset + offset}"
    using assms by (intro ivl_disj_un_two) simp_all
  with Suc show ?case
    by (simp add: atLeast0_lessThan_Suc slice_range_def block_def algebra_simps Un_commute)
qed

lemma blocks_set:
  "set (map (block offset) (filter even [0..<n]) @ map (block offset) (filter odd [0..<n]))
     = block offset ` {0..<n}"
  by auto

lemma nblocks_mult:
  assumes "0 < offset" and "0 < dimension"
  shows "int (nblocks dimension offset) * offset = dimension + (- dimension) mod offset"
proof -
  define q where "q = (- dimension) div offset"
  have "q < 0"
    unfolding q_def using assms by (simp add: div_neg_pos_less0)
  then have "int (nblocks dimension offset) = - q"
    by (simp add: nblocks_def q_def)
  then have n: "int (nblocks dimension offset) * offset = - (q * offset)"
    by simp
  have "q * offset + (- dimension) mod offset = - dimension"
    unfolding q_def by (rule div_mult_mod_eq)
  with n show ?thesis by linarith
qed

lemma nblocks_ge:
  assumes "0 < offset" and "0 < dimension"
  shows "dimension \<le> int (nblocks dimension offset) * offset"
  using assms by (simp add: nblocks_mult)

lemma nblocks_exact:
  assumes "0 < offset" and "0 < dimension"
  shows "int (nblocks dimension offset) * offset = dimension \<longleftrightarrow> offset dvd dimension"
  using assms by (simp add: nblocks_mult mod_eq_0_iff_dvd)

lemma offset_pos_iff:
  "0 < dimension div 2 ^ n \<longleftrightarrow> (2::int) ^ n \<le> dimension"
  by (simp add: pos_imp_zdiv_pos_iff)

lemma offset_zero:
  "0 \<le> dimension \<Longrightarrow> dimension < (2::int) ^ n \<Longrightarrow> dimension div 2 ^ n = 0"
  by simp

lemma full_blocks_from_eq:
  assumes "0 < offset" and "0 < dimension"
  shows "k \<le> nblocks dimension offset \<Longrightarrow>
     full_blocks_from (int k * offset) offset dimension = map (block offset) [k..<nblocks dimension offset]"
proof (induction "nblocks dimension offset - k" arbitrary: k)
  case 0
  then have k: "k = nblocks dimension offset" by simp
  have "\<not> int k * offset < dimension"
    using nblocks_ge [OF assms] k by simp
  then show ?case using k by simp
next
  case (Suc m)
  then have lt: "k < nblocks dimension offset" by simp
  then have "int k + 1 \<le> int (nblocks dimension offset)" by simp
  then have "(int k + 1) * offset \<le> int (nblocks dimension offset) * offset"
    using assms(1) by (simp only: mult_le_cancel_right) simp
  moreover have "int (nblocks dimension offset) * offset < dimension + offset"
    using assms by (simp add: nblocks_mult)
  ultimately have lt': "int k * offset < dimension" by (simp add: algebra_simps)
  have "full_blocks_from (int (Suc k) * offset) offset dimension
      = map (block offset) [Suc k..<nblocks dimension offset]"
    using Suc lt by (intro Suc.hyps) simp_all
  then show ?case
    using lt lt' assms(1)
    by (subst full_blocks_from.simps) (simp add: upt_conv_Cons block_def algebra_simps)
qed

lemma spec_blocks_from_eq:
  assumes "0 < offset" and "0 < dimension" and "offset dvd dimension"
  shows "k \<le> nblocks dimension offset \<Longrightarrow>
     spec_blocks_from (int k * offset) offset dimension = map (block offset) [k..<nblocks dimension offset]"
proof (induction "nblocks dimension offset - k" arbitrary: k)
  case 0
  then have k: "k = nblocks dimension offset" by simp
  have "\<not> int k * offset < dimension"
    using nblocks_ge [OF assms(1,2)] k by simp
  then show ?case using k by simp
next
  case (Suc m)
  then have lt: "k < nblocks dimension offset" by simp
  then have "int k + 1 \<le> int (nblocks dimension offset)" by simp
  then have "(int k + 1) * offset \<le> int (nblocks dimension offset) * offset"
    using assms(1) by (simp only: mult_le_cancel_right) simp
  moreover have "int (nblocks dimension offset) * offset = dimension"
    using assms by (simp only: nblocks_exact)
  ultimately have le: "int k * offset + offset \<le> dimension" by (simp add: algebra_simps)
  then have lt': "int k * offset < dimension" using assms(1) by linarith
  have "spec_blocks_from (int (Suc k) * offset) offset dimension
      = map (block offset) [Suc k..<nblocks dimension offset]"
    using Suc lt by (intro Suc.hyps) simp_all
  then show ?case
    using lt lt' le assms(1)
    by (subst spec_blocks_from.simps) (simp add: upt_conv_Cons block_def algebra_simps)
qed

lemma even_then_odd_blocks:
  "even_then_odd (map f [0..<n]) = map f (filter even [0..<n]) @ map f (filter odd [0..<n])"
proof -
  have sel: "concat (map (\<lambda>i. if P i then [map f [0..<n] ! i] else []) [0..<n])
           = map f (filter P [0..<n])" for P
    unfolding concat_map_if_filter by (rule map_cong) simp_all
  show ?thesis
    by (simp add: even_then_odd_def sel)
qed

lemma full_block_slices_blocks:
  assumes "offset = dimension div 2 ^ (head_id + 1)" and "0 < offset" and "0 < dimension"
  shows "full_block_slices dimension head_id =
       map (block offset) (filter even [0..<nblocks dimension offset])
     @ map (block offset) (filter odd [0..<nblocks dimension offset])"
proof -
  have b: "full_blocks_from 0 offset dimension = map (block offset) [0..<nblocks dimension offset]"
    using full_blocks_from_eq [OF assms(2,3), of 0] by simp
  show ?thesis
    unfolding full_block_slices_def assms(1)[symmetric] b by (rule even_then_odd_blocks)
qed

lemma spec_slices_blocks:
  assumes "offset = dimension div 2 ^ (head_id + 1)" and "0 < offset" and "0 < dimension"
    and "offset dvd dimension"
  shows "spec_slices dimension head_id =
       map (block offset) (filter even [0..<nblocks dimension offset])
     @ map (block offset) (filter odd [0..<nblocks dimension offset])"
proof -
  have b: "spec_blocks_from 0 offset dimension = map (block offset) [0..<nblocks dimension offset]"
    using spec_blocks_from_eq [OF assms(2,3,4), of 0] by simp
  show ?thesis
    unfolding spec_slices_def assms(1)[symmetric] b by (rule even_then_odd_blocks)
qed

lemma get_slices_8_1: "get_slices 8 1 = Inr [(0, 2), (4, 6), (2, 4), (6, 8)]"
  using get_slices_blocks [of 1 2 8]
  by (simp add: nblocks_def block_def upt_conv_Cons)

lemma get_slices_9_1: "get_slices 9 1 = Inr [(0, 2), (4, 6), (8, 10), (2, 4), (6, 8)]"
  using get_slices_blocks [of 1 2 9]
  by (simp add: nblocks_def block_def upt_conv_Cons)

lemma float64_quotient_above_2_53:
  "float64_round (9007199254740993 / 2251799813685248) = 4"
proof -
  have "float64_round (9007199254740993 / 2251799813685248)
      = of_int (round_half_even (9007199254740993 / 2251799813685248 / 2 powi (2 - int 53 + 1)))
          * 2 powi (2 - int 53 + 1)"
    unfolding float64_round_def by (rule round_to_precision_eval) simp_all
  also have "(9007199254740993 / 2251799813685248 / 2 powi (2 - int 53 + 1) :: real)
      = 4503599627370496 + 1 / 2"
    by (simp add: power_int_minus field_simps)
  also have "round_half_even (4503599627370496 + 1 / 2) = 4503599627370496"
  proof -
    have "\<lfloor>4503599627370496 + 1 / 2 :: real\<rfloor> = 4503599627370496"
      by (rule floor_unique) simp_all
    then show ?thesis by (simp add: round_half_even_def)
  qed
  finally show ?thesis by (simp add: power_int_minus)
qed

lemma get_slices_above_2_53:
  "get_slices 9007199254740993 1
     = Inr [(0, 2251799813685248), (4503599627370496, 6755399441055744),
            (2251799813685248, 4503599627370496), (6755399441055744, 9007199254740992)]"
proof -
  have "arange 0 9007199254740993 (9007199254740993 div 2 ^ (1 + 1))
      = Inr (map (\<lambda>i. int i * (9007199254740993 div 2 ^ (1 + 1))) [0..<4])"
    by (simp add: arange_def float64_quotient_above_2_53)
  from slices_of_starts [OF _ this] show ?thesis
    by (simp add: block_def upt_conv_Cons)
qed

text \<open>
  Claim C3, as stated, fails. For dimension \<open>3\<close> and head \<open>1\<close> the block size is \<open>0\<close> and the
  slicer raises instead of returning a list. For dimension \<open>9\<close> and head \<open>1\<close> the last block
  of the slicer is \<open>(8, 10)\<close>, where the blocks up to the dimension end with \<open>(8, 9)\<close>. For
  dimension \<open>2\<^sup>5\<^sup>3 + 1\<close> and head \<open>1\<close> the 64-bit quotient that numpy takes the number of blocks
  from rounds to \<open>4\<close>, and the slicer returns four blocks where the rule has five.
\<close>

theorem get_slices_refines_spec_counterexample:
  "get_slices 3 1 = Inl ZeroDivisionError
   \<and> get_slices 9 1 = Inr [(0, 2), (4, 6), (8, 10), (2, 4), (6, 8)]
   \<and> spec_slices 9 1 = [(0, 2), (4, 6), (8, 9), (2, 4), (6, 8)]
   \<and> get_slices 9007199254740993 1 \<noteq> Inr (spec_slices 9007199254740993 1)"
proof -
  have a: "get_slices 3 1 = Inl ZeroDivisionError"
    by (simp add: get_slices_def arange_def)
  have b: "spec_slices 9 1 = [(0, 2), (4, 6), (8, 9), (2, 4), (6, 8)]"
    by code_simp
  have c: "length (spec_slices 9007199254740993 1) = 5"
    by code_simp
  have "get_slices 9007199254740993 1 \<noteq> Inr (spec_slices 9007199254740993 1)"
  proof
    assume "get_slices 9007199254740993 1 = Inr (spec_slices 9007199254740993 1)"
    then have "length (spec_slices 9007199254740993 1) = 4"
      unfolding get_slices_above_2_53 by (auto dest!: arg_cong [where f = length])
    with c show False by simp
  qed
  with a b get_slices_9_1 show ?thesis by simp
qed

text \<open>
  Claim C3, amended. With head number \<open>0\<close> the slicer returns the single range \<open>(0, dim)\<close> for
  every dimension. With a positive head number and a dimension from \<open>2 ^ (head_id + 1)\<close> up to
  \<open>2\<^sup>5\<^sup>2\<close> it returns the blocks of size \<open>dim div 2 ^ (head_id + 1)\<close> that start at \<open>0\<close>, \<open>offset\<close>,
  \<open>2 * offset\<close>, ... below the dimension, every block of the full size (the last one is not
  shortened to the dimension), the even-numbered ones first and then the odd-numbered
  ones; when the block size divides the dimension this is the list of the specification.
  For dimension \<open>8\<close> and head \<open>1\<close> the result is \<open>[(0,2), (4,6), (2,4), (6,8)]\<close>.
\<close>

theorem get_slices_refines_spec:
  "get_slices dimension 0 = Inr [(0, dimension)]
   \<and> (0 < head_id \<and> 2 ^ (head_id + 1) \<le> dimension \<and> dimension \<le> 2 ^ 52 \<longrightarrow>
        get_slices dimension head_id = Inr (full_block_slices dimension head_id)
        \<and> (dimension div 2 ^ (head_id + 1) dvd dimension \<longrightarrow>
             get_slices dimension head_id = Inr (spec_slices dimension head_id)))
   \<and> get_slices 8 1 = Inr [(0, 2), (4, 6), (2, 4), (6, 8)]"
proof (intro conjI impI)
  show "get_slices dimension 0 = Inr [(0, dimension)]"
    by (simp add: get_slices_def)
next
  assume a: "0 < head_id \<and> 2 ^ (head_id + 1) \<le> dimension \<and> dimension \<le> 2 ^ 52"
  define offset where "offset = dimension div 2 ^ (head_id + 1)"
  from a have pos: "0 < offset"
    unfolding offset_def by (simp only: offset_pos_iff)
  have "(0::int) < 2 ^ (head_id + 1)" by simp
  with a have dpos: "0 < dimension" by linarith
  show full: "get_slices dimension head_id = Inr (full_block_slices dimension head_id)"
    using get_slices_blocks [of head_id offset dimension]
      full_block_slices_blocks [of offset dimension head_id] a pos dpos offset_def by simp
  assume "dimension div 2 ^ (head_id + 1) dvd dimension"
  then show "get_slices dimension head_id = Inr (spec_slices dimension head_id)"
    using get_slices_blocks [of head_id offset dimension]
      spec_slices_blocks [of offset dimension head_id] a pos dpos offset_def by simp
next
  show "get_slices 8 1 = Inr [(0, 2), (4, 6), (2, 4), (6, 8)]"
    by (rule get_slices_8_1)
qed

theorem get_slices_refines_spec_witness:
  "(0::nat) < 2 \<and> (2::int) ^ (2 + 1) \<le> 16 \<and> (16::int) \<le> 2 ^ 52 \<and> (16::int) div 2 ^ (2 + 1) dvd 16
   \<and> get_slices 16 2 = Inr (full_block_slices 16 2)
   \<and> get_slices 16 2 = Inr (spec_slices 16 2)"
proof -
  have h: "(0::nat) < 2 \<and> (2::int) ^ (2 + 1) \<le> 16 \<and> (16::int) \<le> 2 ^ 52" by simp
  have d: "(16::int) div 2 ^ (2 + 1) dvd 16" by simp
  from get_slices_refines_spec [of 16 2] h d
  have "get_slices 16 2 = Inr (full_block_slices 16 2) \<and> get_slices 16 2 = Inr (spec_slices 16 2)"
    by blast
  with h d show ?thesis by blast
qed

text \<open>
  Claim C4, as stated, fails: for dimension \<open>9\<close> and head \<open>1\<close> the block size is \<open>2\<close> and the
  last block is \<open>(8, 10)\<close>, so the ranges cover \<open>10\<close> coordinates, not \<open>9\<close>; and for dimension
  \<open>2\<^sup>5\<^sup>3 + 1\<close> and head \<open>1\<close> the slicer returns four blocks, which leave the coordinate \<open>2\<^sup>5\<^sup>3\<close>
  uncovered.
\<close>

theorem get_slices_partition_counterexample:
  "get_slices 9 1 = Inr [(0, 2), (4, 6), (8, 10), (2, 4), (6, 8)]
   \<and> \<not> slices_partition 9 [(0, 2), (4, 6), (8, 10), (2, 4), (6, 8)]
   \<and> get_slices 9007199254740993 1
       = Inr [(0, 2251799813685248), (4503599627370496, 6755399441055744),
              (2251799813685248, 4503599627370496), (6755399441055744, 9007199254740992)]
   \<and> \<not> slices_partition 9007199254740993
          [(0, 2251799813685248), (4503599627370496, 6755399441055744),
           (2251799813685248, 4503599627370496), (6755399441055744, 9007199254740992)]"
proof -
  have "(9::int) \<in> slices_union [(0, 2), (4, 6), (8, 10), (2, 4), (6, 8)]"
    by (simp add: slices_union_def slice_range_def)
  moreover have "(9::int) \<notin> {0..<9}" by simp
  ultimately have one: "\<not> slices_partition 9 [(0, 2), (4, 6), (8, 10), (2, 4), (6, 8)]"
    unfolding slices_partition_def by blast
  have "(9007199254740992::int) \<notin> slices_union
          [(0, 2251799813685248), (4503599627370496, 6755399441055744),
           (2251799813685248, 4503599627370496), (6755399441055744, 9007199254740992)]"
    by (simp add: slices_union_def slice_range_def)
  moreover have "(9007199254740992::int) \<in> {0..<9007199254740993}" by simp
  ultimately have two: "\<not> slices_partition 9007199254740993
          [(0, 2251799813685248), (4503599627370496, 6755399441055744),
           (2251799813685248, 4503599627370496), (6755399441055744, 9007199254740992)]"
    unfolding slices_partition_def by blast
  from get_slices_9_1 one get_slices_above_2_53 two show ?thesis by blast
qed

text \<open>
  Claim C4, amended. For every dimension from \<open>1\<close> up to \<open>2\<^sup>5\<^sup>2\<close> and every head number on
  which the slicer succeeds, the returned ranges are pairwise disjoint and their union
  contains the interval from \<open>0\<close> up to the dimension; the union is exactly that interval if
  and only if the head number is \<open>0\<close> or the block size divides the dimension.
\<close>

theorem get_slices_cover:
  assumes "1 \<le> dimension" and "dimension \<le> 2 ^ 52"
    and "get_slices dimension head_id = Inr rs"
  shows "slices_disjoint rs
     \<and> {0..<dimension} \<subseteq> slices_union rs
     \<and> (slices_union rs = {0..<dimension}
          \<longleftrightarrow> head_id = 0 \<or> dimension div 2 ^ (head_id + 1) dvd dimension)"
proof (cases "head_id = 0")
  case True
  with assms(3) have "rs = [(0, dimension)]" by (simp add: get_slices_def)
  then show ?thesis
    using True by (simp add: slices_disjoint_def slices_union_def slice_range_def)
next
  case False
  define offset where "offset = dimension div 2 ^ (head_id + 1)"
  define n where "n = nblocks dimension offset"
  have nz: "offset \<noteq> 0"
  proof
    assume "offset = 0"
    then have "get_slices dimension head_id = Inl ZeroDivisionError"
      using False by (simp add: get_slices_def offset_def arange_def)
    with assms(3) show False by simp
  qed
  have "0 \<le> offset"
    unfolding offset_def using assms(1) by (simp add: pos_imp_zdiv_nonneg_iff)
  with nz have pos: "0 < offset" by simp
  have dpos: "0 < dimension" using assms(1) by simp
  have rs: "rs = map (block offset) (filter even [0..<n]) @ map (block offset) (filter odd [0..<n])"
    using get_slices_blocks [of head_id offset dimension] False pos assms(2,3) offset_def n_def
    by simp
  have dis: "slices_disjoint rs"
    unfolding rs by (rule blocks_disjoint [OF pos])
  have un: "slices_union rs = {0..<int n * offset}"
    unfolding slices_union_def rs blocks_set using blocks_union [OF pos, of n] by simp
  have ge: "dimension \<le> int n * offset"
    unfolding n_def by (rule nblocks_ge [OF pos dpos])
  have ex: "int n * offset = dimension \<longleftrightarrow> offset dvd dimension"
    unfolding n_def by (rule nblocks_exact [OF pos dpos])
  have eq: "{0..<int n * offset} = {0..<dimension} \<longleftrightarrow> int n * offset = dimension"
    using dpos ge by (auto simp: atLeastLessThan_inj)
  show ?thesis
    using dis un ge ex eq False offset_def by auto
qed

theorem get_slices_cover_witness:
  "(1::int) \<le> 8 \<and> (8::int) \<le> 2 ^ 52 \<and> get_slices 8 1 = Inr [(0, 2), (4, 6), (2, 4), (6, 8)]
   \<and> slices_disjoint [(0, 2), (4, 6), (2, 4), (6, 8)]
   \<and> slices_union [(0, 2), (4, 6), (2, 4), (6, 8)] = {0..<8}"
  using get_slices_cover [of 8 1, OF _ _ get_slices_8_1] get_slices_8_1 by simp

text \<open>
  Claim C10. For a head number of at least \<open>1\<close> and a dimension (a non-negative integer)
  below \<open>2 ^ (head_id + 1)\<close> the block size is \<open>0\<close> and the slicer fails, with the
  \<^verbatim>\<open>ZeroDivisionError\<close> of \<^verbatim>\<open>np.arange\<close>; for every dimension of at least
  \<open>2 ^ (head_id + 1)\<close> it returns a slice list.
\<close>

theorem get_slices_failure:
  assumes "1 \<le> head_id" and "0 \<le> dimension"
  shows "(dimension < 2 ^ (head_id + 1) \<longrightarrow>
            dimension div 2 ^ (head_id + 1) = 0 \<and> get_slices dimension head_id = Inl ZeroDivisionError)
       \<and> (2 ^ (head_id + 1) \<le> dimension \<longrightarrow> (\<exists>rs. get_slices dimension head_id = Inr rs))"
proof -
  have small: "dimension div 2 ^ (head_id + 1) = 0 \<and> get_slices dimension head_id = Inl ZeroDivisionError"
    if "dimension < 2 ^ (head_id + 1)"
  proof -
    from that have z: "dimension div 2 ^ (head_id + 1) = 0"
      using assms(2) by simp
    then show ?thesis
      using assms(1) by (simp add: get_slices_def arange_def)
  qed
  have large: "\<exists>rs. get_slices dimension head_id = Inr rs"
    if "2 ^ (head_id + 1) \<le> dimension"
  proof -
    from that have "0 < dimension div 2 ^ (head_id + 1)"
      by (simp only: offset_pos_iff)
    then have "dimension div 2 ^ (head_id + 1) \<noteq> 0" by simp
    then show ?thesis
      using assms(1) by (simp add: get_slices_def arange_def Let_def)
  qed
  from small large show ?thesis by blast
qed

theorem get_slices_failure_witness:
  "(1::nat) \<le> 1 \<and> (0::int) \<le> 3 \<and> get_slices 3 1 = Inl ZeroDivisionError
   \<and> (\<exists>rs. get_slices 8 1 = Inr rs)"
  using get_slices_failure [of 1 3] get_slices_failure [of 1 8] by simp

section \<open>Properties of the portable search\<close>

subsection \<open>Tensor operations\<close>

lemma nth_concat_uniform:
  "\<forall>xs\<in>set xss. length xs = n \<Longrightarrow> i < length xss \<Longrightarrow> j < n
     \<Longrightarrow> concat xss ! (i * n + j) = xss ! i ! j"
proof (induction xss arbitrary: i)
  case Nil
  then show ?case by simp
next
  case (Cons xs xss)
  show ?case
  proof (cases i)
    case 0
    with Cons.prems show ?thesis by (simp add: nth_append)
  next
    case (Suc i')
    with Cons.prems have "concat xss ! (i' * n + j) = xss ! i' ! j"
      by (intro Cons.IH) simp_all
    with Suc Cons.prems show ?thesis by (simp add: nth_append)
  qed
qed

lemma shape_tabulate2 [simp]: "shape (tabulate2 m n f) = [m, n]"
  by (simp add: tabulate2_def)

lemma entry_tabulate2 [simp]:
  "i < m \<Longrightarrow> j < n \<Longrightarrow> entry (tabulate2 m n f) i j = f i j"
  using nth_concat_uniform [of "map (\<lambda>i. map (f i) [0..<n]) [0..<m]" n i j]
  by (simp add: tabulate2_def entry_def)

lemma row_tabulate2: "i < m \<Longrightarrow> row (tabulate2 m n f) i = map (f i) [0..<n]"
  by (simp add: row_def)

lemma shape_tensor_t: "shape x = [r, c] \<Longrightarrow> shape (tensor_t x) = [c, r]"
  by (simp add: tensor_t_def)

lemma entry_tensor_t:
  "shape x = [r, c] \<Longrightarrow> i < c \<Longrightarrow> j < r \<Longrightarrow> entry (tensor_t x) i j = entry x j i"
  by (simp add: tensor_t_def)

lemma sum_list_upt_cong:
  "(\<And>l. l < d \<Longrightarrow> f l = g l) \<Longrightarrow> (\<Sum>l\<leftarrow>[0..<d]. f l) = (\<Sum>l\<leftarrow>[0..<d]. (g l :: real))"
  by (rule arg_cong [where f = sum_list]) simp

lemma mm_t_entry:
  assumes "shape a = [m, d]" and "shape b = [n, d]" and "i < m" and "j < n"
  shows "entry (mm a (tensor_t b)) i j = (\<Sum>l\<leftarrow>[0..<d]. entry a i l * entry b j l)"
proof -
  have "entry (mm a (tensor_t b)) i j = (\<Sum>l\<leftarrow>[0..<d]. entry a i l * entry (tensor_t b) l j)"
    using assms by (simp add: mm_def shape_tensor_t)
  also have "\<dots> = (\<Sum>l\<leftarrow>[0..<d]. entry a i l * entry b j l)"
    using assms by (intro sum_list_upt_cong) (simp add: entry_tensor_t)
  finally show ?thesis .
qed

lemma shape_mm_t:
  "shape a = [m, d] \<Longrightarrow> shape b = [n, d] \<Longrightarrow> shape (mm a (tensor_t b)) = [m, n]"
  by (simp add: mm_def shape_tensor_t)

lemma dot_rows:
  "shape a = [m, d] \<Longrightarrow> shape b = [n, d] \<Longrightarrow>
     dot (row b j) (row a i) = (\<Sum>l\<leftarrow>[0..<d]. entry a i l * entry b j l)"
proof -
  have "zip (map f xs) (map g xs) = map (\<lambda>l. (f l, g l)) xs" for f g :: "nat \<Rightarrow> real" and xs
    by (induction xs) simp_all
  then show "shape a = [m, d] \<Longrightarrow> shape b = [n, d] \<Longrightarrow>
     dot (row b j) (row a i) = (\<Sum>l\<leftarrow>[0..<d]. entry a i l * entry b j l)"
    by (simp add: dot_def row_def o_def mult.commute)
qed

lemma norm2_row:
  "shape a = [m, d] \<Longrightarrow> norm2 (row a i) = sqrt (\<Sum>l\<leftarrow>[0..<d]. (entry a i l)\<^sup>2)"
  by (simp add: norm2_def row_def o_def)

lemma sumsq_nonneg: "0 \<le> (\<Sum>x\<leftarrow>u. (x::real)\<^sup>2)"
  by (induction u) simp_all

lemma norm2_sq: "(norm2 u)\<^sup>2 = (\<Sum>x\<leftarrow>u. x\<^sup>2)"
  by (simp add: norm2_def sumsq_nonneg)

lemma sumsq_row:
  "shape a = [m, d] \<Longrightarrow> (\<Sum>x\<leftarrow>row a i. x\<^sup>2) = (\<Sum>l\<leftarrow>[0..<d]. (entry a i l)\<^sup>2)"
  by (simp add: row_def o_def)




lemma knn_scores_valid:
  assumes "shape a = [m, d]" and "shape b = [n, d]"
    and "distance \<in> set [''dot_product'', ''cosine'', ''l2'']"
  shows "\<exists>s. knn_scores a b distance = Inr s \<and> shape s = [m, n]
           \<and> (\<forall>i<m. \<forall>j<n. entry s i j = pair_score distance (row b j) (row a i))"
proof -
  consider "distance = ''dot_product''" | "distance = ''cosine''" | "distance = ''l2''"
    using assms(3) by auto
  then show ?thesis
  proof cases
    case 1
    then show ?thesis
      using assms(1,2)
      by (simp add: knn_scores_def shape_mm_t mm_t_entry pair_score_def dot_rows)
  next
    case 2
    then show ?thesis
      using assms(1,2)
      by (simp add: knn_scores_def Let_def map_col_def map_row_def shape_mm_t mm_t_entry
          pair_score_def dot_rows norm2_row norm_rows_def mult.commute)
  next
    case 3
    then show ?thesis
      using assms(1,2)
      by (simp add: knn_scores_def Let_def map_col_def map_row_def scale_by_def shape_mm_t
          mm_t_entry pair_score_def dot_rows norm2_sq sumsq_rows_def sumsq_row mult.commute)
  qed
qed

subsection \<open>Selection of the largest values\<close>

lemma topk_ranked: "topk k col = take k (ranked col)"
  by (simp add: topk_def ranked_def)

lemma length_ranked [simp]: "length (ranked col) = length col"
  by (simp add: ranked_def)





lemma ranked_member:
  assumes "p \<in> set (ranked col)"
  shows "snd p < length col \<and> fst p = col ! snd p"
proof -
  from assms have "p \<in> set (zip col [0..<length col])"
    by (simp add: ranked_def)
  then obtain r where "r < length col" "p = (col ! r, [0..<length col] ! r)"
    by (auto simp: in_set_zip)
  then show ?thesis by simp
qed


lemma length_topk: "k \<le> length col \<Longrightarrow> length (topk k col) = k"
  by (simp add: topk_ranked)

lemma topk_member:
  "p \<in> set (topk k col) \<Longrightarrow> snd p < length col \<and> fst p = col ! snd p"
  using ranked_member [of p col] by (auto simp: topk_ranked dest: in_set_takeD)





lemma map_nth_upt: "length xs = k \<Longrightarrow> map (\<lambda>r. f (xs ! r)) [0..<k] = map f xs"
  by (auto simp: list_eq_iff_nth_eq)

lemma length_column: "shape s = [m, n] \<Longrightarrow> length (column s j) = m"
  by (simp add: column_def)

lemma knn_result:
  assumes "shape a = [m, d]" and "shape b = [n, d]" and "0 < k" and "k \<le> int m"
    and "distance \<in> set [''dot_product'', ''cosine'', ''l2'']"
  shows "\<exists>S I. get_knn_pytorch a b k distance = Inr (S, I)
           \<and> shape S = [n, nat k] \<and> shape I = [n, nat k]
           \<and> (\<forall>j<n. row S j = map fst (topk (nat k) (map (\<lambda>i. pair_score distance (row b j) (row a i)) [0..<m]))
                   \<and> row I j = map snd (topk (nat k) (map (\<lambda>i. pair_score distance (row b j) (row a i)) [0..<m])))"
proof -
  from knn_scores_valid [OF assms(1,2,5)] obtain s where
    s: "knn_scores a b distance = Inr s" "shape s = [m, n]"
      "\<forall>i<m. \<forall>j<n. entry s i j = pair_score distance (row b j) (row a i)"
    by blast
  have km: "nat k \<le> m" using assms(3,4) by simp
  have col: "column s j = map (\<lambda>i. pair_score distance (row b j) (row a i)) [0..<m]" if "j < n" for j
    using s(2,3) that by (simp add: column_def)
  have len: "length (topk (nat k) (column s j)) = nat k" for j
    using km by (simp add: length_topk length_column [OF s(2)])
  define V where "V = tabulate2 (nat k) n (\<lambda>r j. fst (topk (nat k) (column s j) ! r))"
  define J where "J = tabulate2 (nat k) n (\<lambda>r j. snd (topk (nat k) (column s j) ! r))"
  have tk: "topk_dim0 (nat k) s = Inr (V, J)"
    using km s(2) by (simp add: topk_dim0_def V_def J_def)
  have res: "get_knn_pytorch a b k distance = Inr (tensor_t V, tensor_t J)"
    using assms s(1) tk by (simp add: get_knn_pytorch_def)
  have shV: "shape V = [nat k, n]" and shJ: "shape J = [nat k, n]"
    by (simp_all add: V_def J_def)
  have rowV: "row (tensor_t V) j = map fst (topk (nat k) (column s j))" if "j < n" for j
  proof -
    have "row (tensor_t V) j = map (\<lambda>r. fst (topk (nat k) (column s j) ! r)) [0..<nat k]"
      using that by (simp add: row_def shape_tensor_t [OF shV] entry_tensor_t [OF shV]) (simp add: V_def)
    then show ?thesis by (simp add: map_nth_upt [OF len])
  qed
  have rowJ: "row (tensor_t J) j = map snd (topk (nat k) (column s j))" if "j < n" for j
  proof -
    have "row (tensor_t J) j = map (\<lambda>r. snd (topk (nat k) (column s j) ! r)) [0..<nat k]"
      using that by (simp add: row_def shape_tensor_t [OF shJ] entry_tensor_t [OF shJ]) (simp add: J_def)
    then show ?thesis by (simp add: map_nth_upt [OF len])
  qed
  show ?thesis
    using res shape_tensor_t [OF shV] shape_tensor_t [OF shJ] rowV rowJ col by simp
qed


lemma knn_result_entries:
  assumes "shape a = [m, d]" and "shape b = [n, d]" and "0 < k" and "k \<le> int m"
    and "distance \<in> set [''dot_product'', ''cosine'', ''l2'']"
  shows "\<exists>S I. get_knn_pytorch a b k distance = Inr (S, I)
           \<and> shape S = [n, nat k] \<and> shape I = [n, nat k]
           \<and> (\<forall>i<n. \<forall>j<nat k. entry I i j < m
                  \<and> entry S i j = pair_score distance (row b i) (row a (entry I i j)))"
proof -
  define col where "col i = map (\<lambda>i'. pair_score distance (row b i) (row a i')) [0..<m]" for i
  from knn_result [OF assms] obtain S I where
    res: "get_knn_pytorch a b k distance = Inr (S, I)"
    and sh: "shape S = [n, nat k]" "shape I = [n, nat k]"
    and rows: "\<forall>i<n. row S i = map fst (topk (nat k) (col i)) \<and> row I i = map snd (topk (nat k) (col i))"
    unfolding col_def by blast
  have km: "nat k \<le> length (col i)" for i
    using assms(3,4) by (simp add: col_def)
  have ent: "entry I i j < m \<and> entry S i j = pair_score distance (row b i) (row a (entry I i j))"
    if "i < n" "j < nat k" for i j
  proof -
    let ?T = "topk (nat k) (col i)"
    from rows that(1) have rS: "row S i = map fst ?T" and rI: "row I i = map snd ?T" by auto
    have len: "length ?T = nat k" using km by (rule length_topk)
    have e: "entry S i j = row S i ! j" "entry I i j = row I i ! j"
      using that(2) sh by (simp_all add: row_def)
    have "?T ! j \<in> set ?T" using that(2) len by simp
    from topk_member [OF this]
    have "snd (?T ! j) < m \<and> fst (?T ! j) = pair_score distance (row b i) (row a (snd (?T ! j)))"
      by (simp add: col_def)
    then show ?thesis
      using e that(2) len by (simp add: rS rI)
  qed
  from res sh ent show ?thesis by blast
qed

subsection \<open>Failure conditions\<close>

lemma get_knn_pytorch_assertion:
  assumes "shape a = [m, d]" and "shape b = [n, d']"
  shows "get_knn_pytorch a b k distance = Inl AssertionError
     \<longleftrightarrow> k \<le> 0 \<or> distance \<notin> set [''dot_product'', ''cosine'', ''l2''] \<or> d \<noteq> d'"
proof (cases "k \<le> 0 \<or> distance \<notin> set [''dot_product'', ''cosine'', ''l2''] \<or> d \<noteq> d'")
  case True
  then show ?thesis
    using assms by (auto simp: get_knn_pytorch_def)
next
  case False
  then have v: "distance \<in> set [''dot_product'', ''cosine'', ''l2'']" and dd: "d' = d" and k: "0 < k"
    by auto
  from knn_scores_valid [OF assms(1) assms(2) [unfolded dd] v] obtain s where
    s: "knn_scores a b distance = Inr s" by blast
  have "topk_dim0 (nat k) s \<noteq> Inl AssertionError"
    by (simp add: topk_dim0_def)
  then have "get_knn_pytorch a b k distance \<noteq> Inl AssertionError"
    using assms dd k v s
    by (auto simp: get_knn_pytorch_def split: sum.splits)
  with False show ?thesis by simp
qed

lemma get_knn_faiss_assertion:
  assumes "size xb = [nb, d2]" and "size xq = [nq, d1]" and "0 < k"
    and "device xb = device xq"
    and "is_contiguous xb" and "dtype xb = Float32"
    and "is_contiguous xq" and "dtype xq = Float32"
  shows "get_knn_faiss bfKnn fresh xb xq k distance = Inl AssertionError
     \<longleftrightarrow> distance \<notin> set [''dot_product'', ''l2''] \<or> d1 \<noteq> d2"
  using assms
  by (simp add: get_knn_faiss_def swig_ptr_from_FloatTensor_def swig_ptr_from_IndicesTensor_def
      torch_empty_def Let_def)

subsection \<open>The claims about the search\<close>



text \<open>
  Claim C5, as stated, fails for the native variant: a request for \<^verbatim>\<open>cosine\<close> with a
  positive \<open>k\<close> and matching feature dimensions is rejected by the same assertion failure
  as an invalid argument, although none of the three listed conditions holds; and with
  \<open>k = 0\<close> no assertion of the function fails (the call is handed to the library).
\<close>

theorem knn_invalid_argument_counterexample:
  "get_knn_faiss (\<lambda>args. True) (12288, 16384) XB XQ 1 ''cosine'' = Inl AssertionError
   \<and> \<not> ((1::int) \<le> 0 \<or> ''cosine'' \<notin> set [''dot_product'', ''cosine'', ''l2'']
          \<or> size XB ! 1 \<noteq> size XQ ! 1)
   \<and> get_knn_faiss (\<lambda>args. True) (12288, 16384) XB XQ 0 ''l2'' \<noteq> Inl AssertionError"
  by (simp add: get_knn_faiss_def XB_def XQ_def swig_ptr_from_FloatTensor_def
      swig_ptr_from_IndicesTensor_def torch_empty_def)

text \<open>
  Claim C5, amended. On matrices, the portable variant fails with an assertion error
  exactly when \<open>k \<le> 0\<close>, or the distance is none of \<^verbatim>\<open>dot_product\<close>,
  \<^verbatim>\<open>cosine\<close>, \<^verbatim>\<open>l2\<close>, or the feature dimensions differ. On contiguous 32-bit
  float matrices of one device and for positive \<open>k\<close>, the native variant fails with an
  assertion error exactly when the distance is neither \<^verbatim>\<open>dot_product\<close> nor
  \<^verbatim>\<open>l2\<close>, or the feature dimensions differ. A failure is a left injection: it carries
  no result.
\<close>

theorem knn_assertion_conditions:
  "(shape a = [m, d] \<and> shape b = [n, d'] \<longrightarrow>
      (get_knn_pytorch a b k distance = Inl AssertionError
         \<longleftrightarrow> k \<le> 0 \<or> distance \<notin> set [''dot_product'', ''cosine'', ''l2''] \<or> d \<noteq> d'))
   \<and> (size xb = [nb, d2] \<and> size xq = [nq, d1] \<and> 0 < k'
        \<and> device xb = device xq
        \<and> is_contiguous xb \<and> dtype xb = Float32 \<and> is_contiguous xq \<and> dtype xq = Float32 \<longrightarrow>
      (get_knn_faiss bfKnn fresh xb xq k' distance' = Inl AssertionError
         \<longleftrightarrow> distance' \<notin> set [''dot_product'', ''l2''] \<or> d1 \<noteq> d2))"
  using get_knn_pytorch_assertion [of a m d b n d' k distance]
    get_knn_faiss_assertion [of xb nb d2 xq nq d1 k' bfKnn fresh distance']
  by blast

theorem knn_assertion_conditions_witness:
  "get_knn_pytorch A1 B1 0 ''l2'' = Inl AssertionError
   \<and> get_knn_pytorch A1 B1 2 ''manhattan'' = Inl AssertionError
   \<and> get_knn_pytorch A1 B1 2 ''l2'' \<noteq> Inl AssertionError
   \<and> get_knn_faiss (\<lambda>args. True) (12288, 16384) XB XQ 1 ''cosine'' = Inl AssertionError
   \<and> get_knn_faiss (\<lambda>args. True) (12288, 16384) XB XQ 1 ''l2'' \<noteq> Inl AssertionError"
proof -
  have sh: "shape A1 = [3, 2] \<and> shape B1 = [2, 2]"
    by (simp add: A1_def B1_def)
  have hx: "size XB = [4, 2] \<and> size XQ = [3, 2] \<and> (0::int) < 1
        \<and> device XB = device XQ
        \<and> is_contiguous XB \<and> dtype XB = Float32 \<and> is_contiguous XQ \<and> dtype XQ = Float32"
    by (simp add: XB_def XQ_def)
  have p: "get_knn_pytorch A1 B1 k distance = Inl AssertionError
         \<longleftrightarrow> k \<le> 0 \<or> distance \<notin> set [''dot_product'', ''cosine'', ''l2''] \<or> (2::nat) \<noteq> 2"
    for k distance
    using knn_assertion_conditions [of A1 3 2 B1 2 2 k distance] sh by blast
  have f: "get_knn_faiss (\<lambda>args. True) (12288, 16384) XB XQ 1 distance' = Inl AssertionError
         \<longleftrightarrow> distance' \<notin> set [''dot_product'', ''l2''] \<or> (2::nat) \<noteq> 2"
    for distance'
    using knn_assertion_conditions [of _ _ _ _ _ _ _ _ XB 4 2 XQ 3 2 1 "\<lambda>args. True" "(12288, 16384)" distance'] hx
    by blast
  show ?thesis
    by (simp add: p f)
qed



text \<open>
  Claim C7. Under the distance \<^verbatim>\<open>cosine\<close> every entry of the score matrix, and every
  score the search returns, is the dot product of query and key divided by the product of
  the two norms, each increased by \<open>10\<^sup>-\<^sup>9\<close>.
\<close>

theorem knn_cosine_score:
  assumes "shape a = [m, d]" and "shape b = [n, d]"
  shows "(\<exists>s. knn_scores a b ''cosine'' = Inr s
            \<and> (\<forall>i<m. \<forall>j<n. entry s i j
                  = dot (row b j) (row a i)
                      / ((norm2 (row b j) + 1 / 10 ^ 9) * (norm2 (row a i) + 1 / 10 ^ 9))))
       \<and> (0 < k \<and> k \<le> int m \<longrightarrow>
            (\<exists>S I. get_knn_pytorch a b k ''cosine'' = Inr (S, I)
               \<and> (\<forall>i<n. \<forall>j<nat k. entry S i j
                     = dot (row b i) (row a (entry I i j))
                         / ((norm2 (row b i) + 1 / 10 ^ 9) * (norm2 (row a (entry I i j)) + 1 / 10 ^ 9)))))"
proof
  from knn_scores_valid [OF assms, of "''cosine''"] obtain s where
    "knn_scores a b ''cosine'' = Inr s"
    "\<forall>i<m. \<forall>j<n. entry s i j = pair_score ''cosine'' (row b j) (row a i)"
    by auto
  then show "\<exists>s. knn_scores a b ''cosine'' = Inr s
            \<and> (\<forall>i<m. \<forall>j<n. entry s i j
                  = dot (row b j) (row a i)
                      / ((norm2 (row b j) + 1 / 10 ^ 9) * (norm2 (row a i) + 1 / 10 ^ 9)))"
    by (simp add: pair_score_def eps_def)
next
  show "0 < k \<and> k \<le> int m \<longrightarrow>
            (\<exists>S I. get_knn_pytorch a b k ''cosine'' = Inr (S, I)
               \<and> (\<forall>i<n. \<forall>j<nat k. entry S i j
                     = dot (row b i) (row a (entry I i j))
                         / ((norm2 (row b i) + 1 / 10 ^ 9) * (norm2 (row a (entry I i j)) + 1 / 10 ^ 9))))"
  proof
    assume k: "0 < k \<and> k \<le> int m"
    have v: "''cosine'' \<in> set [''dot_product'', ''cosine'', ''l2'']" by simp
    from knn_result_entries [OF assms _ _ v, of k] k obtain S I where
      "get_knn_pytorch a b k ''cosine'' = Inr (S, I)"
      "\<forall>i<n. \<forall>j<nat k. entry S i j = pair_score ''cosine'' (row b i) (row a (entry I i j))"
      by auto
    then show "\<exists>S I. get_knn_pytorch a b k ''cosine'' = Inr (S, I)
               \<and> (\<forall>i<n. \<forall>j<nat k. entry S i j
                     = dot (row b i) (row a (entry I i j))
                         / ((norm2 (row b i) + 1 / 10 ^ 9) * (norm2 (row a (entry I i j)) + 1 / 10 ^ 9)))"
      by (simp add: pair_score_def eps_def)
  qed
qed

theorem knn_cosine_score_witness:
  "shape A1 = [3, 2] \<and> shape B1 = [2, 2] \<and> (0::int) < 2 \<and> (2::int) \<le> int 3
   \<and> (\<exists>s. knn_scores A1 B1 ''cosine'' = Inr s
         \<and> entry s 2 0 = dot (row B1 0) (row A1 2)
              / ((norm2 (row B1 0) + 1 / 10 ^ 9) * (norm2 (row A1 2) + 1 / 10 ^ 9)))
   \<and> (\<exists>S I. get_knn_pytorch A1 B1 2 ''cosine'' = Inr (S, I)
         \<and> entry S 0 0 = dot (row B1 0) (row A1 (entry I 0 0))
              / ((norm2 (row B1 0) + 1 / 10 ^ 9) * (norm2 (row A1 (entry I 0 0)) + 1 / 10 ^ 9)))"
proof -
  have sh: "shape A1 = [3, 2]" "shape B1 = [2, 2]"
    by (simp_all add: A1_def B1_def)
  note c = knn_cosine_score [OF sh, of 2]
  from c obtain s where
    "knn_scores A1 B1 ''cosine'' = Inr s"
    "\<forall>i<3. \<forall>j<2. entry s i j = dot (row B1 j) (row A1 i)
                    / ((norm2 (row B1 j) + 1 / 10 ^ 9) * (norm2 (row A1 i) + 1 / 10 ^ 9))"
    by blast
  then have one: "\<exists>s. knn_scores A1 B1 ''cosine'' = Inr s
         \<and> entry s 2 0 = dot (row B1 0) (row A1 2)
              / ((norm2 (row B1 0) + 1 / 10 ^ 9) * (norm2 (row A1 2) + 1 / 10 ^ 9))"
    by simp
  from c obtain S I where
    "get_knn_pytorch A1 B1 2 ''cosine'' = Inr (S, I)"
    "\<forall>i<2. \<forall>j<nat 2. entry S i j = dot (row B1 i) (row A1 (entry I i j))
                    / ((norm2 (row B1 i) + 1 / 10 ^ 9) * (norm2 (row A1 (entry I i j)) + 1 / 10 ^ 9))"
    by auto
  then have two: "\<exists>S I. get_knn_pytorch A1 B1 2 ''cosine'' = Inr (S, I)
         \<and> entry S 0 0 = dot (row B1 0) (row A1 (entry I 0 0))
              / ((norm2 (row B1 0) + 1 / 10 ^ 9) * (norm2 (row A1 (entry I 0 0)) + 1 / 10 ^ 9))"
    by auto
  from sh one two show ?thesis by simp
qed

section \<open>Properties of the candidate combiner\<close>

lemma chunks_one: "chunks (Suc 0) xs = map (\<lambda>x. [x]) xs"
proof (rule nth_equalityI)
  show "length (chunks (Suc 0) xs) = length (map (\<lambda>x. [x]) xs)"
    by (simp add: chunks_def)
next
  fix i
  assume "i < length (chunks (Suc 0) xs)"
  then have i: "i < length xs" by (simp add: chunks_def)
  then have "take (Suc 0) (drop i xs) = [xs ! i]"
    by (simp add: take_Suc_conv_app_nth)
  then show "chunks (Suc 0) xs ! i = map (\<lambda>x. [x]) xs ! i"
    using i by (simp add: chunks_def)
qed

lemma chunks_rows:
  "0 < d \<Longrightarrow> length xs = n * d \<Longrightarrow> chunks d xs = map (\<lambda>r. take d (drop (r * d) xs)) [0..<n]"
  by (simp add: chunks_def)

lemma length_row_chunk:
  assumes "length xs = n * d" and "r < n"
  shows "length (take d (drop (r * d) xs)) = d"
proof -
  from assms(2) have "Suc r \<le> n" by simp
  then have "Suc r * d \<le> n * d" by (rule mult_le_mono1)
  then show ?thesis using assms(1) by simp
qed

lemma nth_row_chunk:
  assumes "length xs = n * d" and "r < n" and "j < d"
  shows "take d (drop (r * d) xs) ! j = xs ! (r * d + j)"
proof -
  from assms(2) have "Suc r \<le> n" by simp
  then have "Suc r * d \<le> n * d" by (rule mult_le_mono1)
  then have "r * d + j < length xs" using assms(1,3) by simp
  then show ?thesis using assms(3) by simp
qed

lemma concat_replicate_single: "concat (replicate r [x]) = replicate r x"
  by (induction r) simp_all

lemma length_concat_uniform:
  "\<forall>xs\<in>set xss. length xs = n \<Longrightarrow> length (concat xss) = length xss * n"
  by (induction xss) simp_all

lemma length_left_data: "length (left_data d2 A) = length A * d2"
  using length_concat_uniform [of "map (replicate d2) A" d2] by (simp add: left_data_def)

lemma nth_left_data:
  "q < length A \<Longrightarrow> j < d2 \<Longrightarrow> left_data d2 A ! (q * d2 + j) = A ! q"
  using nth_concat_uniform [of "map (replicate d2) A" d2 q j] by (simp add: left_data_def)

lemma length_tile: "length c = d2 \<Longrightarrow> length (concat (replicate d1 c)) = d1 * d2"
  using length_concat_uniform [of "replicate d1 c" d2] by simp

lemma nth_tile:
  "length c = d2 \<Longrightarrow> i < d1 \<Longrightarrow> j < d2 \<Longrightarrow> concat (replicate d1 c) ! (i * d2 + j) = c ! j"
  using nth_concat_uniform [of "replicate d1 c" d2 i j] by simp

lemma length_right_data:
  assumes "0 < d2" and "length B = n * d2"
  shows "length (right_data d1 d2 B) = n * (d1 * d2)"
proof -
  let ?blocks = "map (\<lambda>r. concat (replicate d1 (take d2 (drop (r * d2) B)))) [0..<n]"
  have "\<forall>xs\<in>set ?blocks. length xs = d1 * d2"
    using length_row_chunk [OF assms(2)] by (auto simp: length_tile)
  from length_concat_uniform [OF this] show ?thesis
    by (simp add: right_data_def chunks_rows [OF assms] o_def)
qed

lemma nth_right_data:
  assumes "length B = n * d2" and "r < n" and "i < d1" and "j < d2"
  shows "right_data d1 d2 B ! (r * (d1 * d2) + (i * d2 + j)) = B ! (r * d2 + j)"
proof -
  let ?blocks = "map (\<lambda>r. concat (replicate d1 (take d2 (drop (r * d2) B)))) [0..<n]"
  have pos: "0 < d2" using assms(4) by simp
  have u: "\<forall>xs\<in>set ?blocks. length xs = d1 * d2"
    using length_row_chunk [OF assms(1)] by (auto simp: length_tile)
  have lt: "i * d2 + j < d1 * d2"
  proof -
    from assms(3) have "Suc i \<le> d1" by simp
    then have "Suc i * d2 \<le> d1 * d2" by (rule mult_le_mono1)
    then show ?thesis using assms(4) by simp
  qed
  have "right_data d1 d2 B ! (r * (d1 * d2) + (i * d2 + j)) = ?blocks ! r ! (i * d2 + j)"
    using nth_concat_uniform [OF u, of r "i * d2 + j"] assms(2) lt
    by (simp add: right_data_def chunks_rows [OF pos assms(1)] o_def)
  also have "\<dots> = concat (replicate d1 (take d2 (drop (r * d2) B))) ! (i * d2 + j)"
    using assms(2) by simp
  also have "\<dots> = take d2 (drop (r * d2) B) ! j"
    using length_row_chunk [OF assms(1,2)] assms(3,4) by (intro nth_tile)
  also have "\<dots> = B ! (r * d2 + j)"
    using assms(1,2,4) by (rule nth_row_chunk)
  finally show ?thesis .
qed

lemma nth_interleave:
  assumes "p < length L" and "p < length R"
  shows "interleave L R ! (p * 2) = L ! p" and "interleave L R ! (p * 2 + 1) = R ! p"
proof -
  let ?blocks = "map (\<lambda>(x, y). [x, y]) (zip L R)"
  have u: "\<forall>xs\<in>set ?blocks. length xs = 2" by auto
  have len: "p < length ?blocks" using assms by simp
  have b: "?blocks ! p = [L ! p, R ! p]" using assms by simp
  from nth_concat_uniform [OF u len, of 0] b show "interleave L R ! (p * 2) = L ! p"
    by (simp add: interleave_def)
  from nth_concat_uniform [OF u len, of 1] b show "interleave L R ! (p * 2 + 1) = R ! p"
    by (simp add: interleave_def)
qed

lemma cat_singletons:
  "concat (map2 (@) (map (\<lambda>x. [x]) L) (map (\<lambda>x. [x]) R)) = interleave L R"
  by (simp add: interleave_def zip_map_map o_def split_def)

lemma cartesian_product_data:
  assumes "shape a = [n, d1]" and "shape b = [n, d2]"
  shows "cartesian_product a b =
     Inr \<lparr>shape = [n, d1 * d2, 2],
          data = interleave (left_data d2 (data a)) (right_data d1 d2 (data b))\<rparr>"
  using assms
  by (simp add: cartesian_product_def view_def cat_last_def unsqueeze_last_def repeat_last_def
      chunks_one concat_replicate_single o_def cat_singletons left_data_def [symmetric]
      right_data_def [symmetric] mult.commute)

lemma length_right_data_any:
  assumes "length B = n * d2"
  shows "length (right_data d1 d2 B) = n * (d1 * d2)"
proof (cases "d2 = 0")
  case True
  then show ?thesis by (simp add: right_data_def chunks_def)
next
  case False
  then show ?thesis using length_right_data [OF _ assms] by simp
qed

lemma length_interleave: "length (interleave L R) = min (length L) (length R) * 2"
proof -
  have "\<forall>xs\<in>set (map (\<lambda>(x, y). [x, y]) (zip L R)). length xs = 2" by auto
  from length_concat_uniform [OF this] show ?thesis
    by (simp add: interleave_def)
qed

lemma position_less:
  assumes "r < n" and "p < (m::nat)"
  shows "r * m + p < n * m"
proof -
  from assms(1) have "Suc r \<le> n" by simp
  then have "Suc r * m \<le> n * m" by (rule mult_le_mono1)
  then show ?thesis using assms(2) by simp
qed

lemma position_inj:
  assumes "j < d2" and "j' < d2" and "i * d2 + j = i' * d2 + (j'::nat)"
  shows "i = i' \<and> j = j'"
proof -
  have "(i * d2 + j) div d2 = i" "(i' * d2 + j') div d2 = i'"
    using assms(1,2) by simp_all
  with assms(3) have "i = i'" by simp
  with assms(3) show ?thesis by simp
qed

lemma cartesian_product_entries:
  assumes "shape a = [n, d1]" and "shape b = [n, d2]" and "wf_tensor a" and "wf_tensor b"
    and "cartesian_product a b = Inr out"
    and "r < n" and "i < d1" and "j < d2"
  shows "pair_at out r (i * d2 + j) = (entry a r i, entry b r j)"
proof -
  let ?L = "left_data d2 (data a)" and ?R = "right_data d1 d2 (data b)"
  have la: "length (data a) = n * d1" and lb: "length (data b) = n * d2"
    using assms(1-4) by (simp_all add: wf_tensor_def)
  have out: "out = \<lparr>shape = [n, d1 * d2, 2], data = interleave ?L ?R\<rparr>"
    using cartesian_product_data [OF assms(1,2)] assms(5) by simp
  define q where "q = r * (d1 * d2) + (i * d2 + j)"
  have q2: "q = (r * d1 + i) * d2 + j"
    by (simp add: q_def algebra_simps)
  have "i * d2 + j < d1 * d2" using assms(7,8) by (rule position_less)
  with assms(6) have "q < n * (d1 * d2)"
    unfolding q_def by (rule position_less)
  then have qL: "q < length ?L" and qR: "q < length ?R"
    by (simp_all add: length_left_data la length_right_data_any [OF lb] mult.assoc)
  have ri: "r * d1 + i < length (data a)"
    unfolding la using assms(6,7) by (rule position_less)
  have "?L ! q = data a ! (r * d1 + i)"
    unfolding q2 using ri assms(8) by (rule nth_left_data)
  moreover have "?R ! q = data b ! (r * d2 + j)"
    unfolding q_def using lb assms(6,7,8) by (rule nth_right_data)
  moreover have "entry3 out r (i * d2 + j) 0 = ?L ! q" "entry3 out r (i * d2 + j) 1 = ?R ! q"
    using nth_interleave [OF qL qR] by (simp_all add: entry3_def out q_def)
  ultimately show ?thesis
    using assms(1,2) by (simp add: pair_at_def entry_def)
qed

lemma cartesian_product_rows:
  assumes "shape a = [n, d1]" and "shape b = [n, d2]" and "wf_tensor a" and "wf_tensor b"
    and "cartesian_product a b = Inr out" and "r < n"
  shows "pairs out r = List.product (row a r) (row b r)"
proof (rule nth_equalityI)
  have sh: "shape out = [n, d1 * d2, 2]"
    using cartesian_product_data [OF assms(1,2)] assms(5) by auto
  show len: "length (pairs out r) = length (List.product (row a r) (row b r))"
    using assms(1,2) sh by (simp add: pairs_def row_def)
  fix p
  assume "p < length (pairs out r)"
  then have p: "p < d1 * d2" using sh by (simp add: pairs_def)
  then have d2: "0 < d2" by (cases d2) simp_all
  have i: "p div d2 < d1"
    using p by (simp add: less_mult_imp_div_less)
  have j: "p mod d2 < d2" using d2 by simp
  have "pairs out r ! p = pair_at out r (p div d2 * d2 + p mod d2)"
    using p sh by (simp add: pairs_def)
  also have "\<dots> = (entry a r (p div d2), entry b r (p mod d2))"
    using assms i j by (rule cartesian_product_entries)
  also have "\<dots> = List.product (row a r) (row b r) ! p"
    using p i j assms(1,2) by (simp add: product_nth row_def)
  finally show "pairs out r ! p = List.product (row a r) (row b r) ! p" .
qed

text \<open>
  Claim C2. For well-formed index matrices of shapes \<open>(n, d1)\<close> and \<open>(n, d2)\<close> the combiner
  returns a tensor of shape \<open>(n, d1 * d2, 2)\<close>. In every row \<open>r\<close> the pairs, in order, are
  the cartesian product of row \<open>r\<close> of the first matrix with row \<open>r\<close> of the second, row-major
  over the first: the pair of the entries at \<open>i\<close> and \<open>j\<close> stands at position \<open>i * d2 + j\<close>, and
  at no other position does the pair of another \<open>i'\<close>, \<open>j'\<close> stand there. For widths \<open>2\<close> and
  \<open>3\<close> the shape is \<open>(n, 6, 2)\<close> and every row holds the six pairs.
\<close>

theorem cartesian_product_pairs:
  assumes "shape a = [n, d1]" and "shape b = [n, d2]" and "wf_tensor a" and "wf_tensor b"
  shows "\<exists>out. cartesian_product a b = Inr out
           \<and> shape out = [n, d1 * d2, 2] \<and> wf_tensor out
           \<and> (\<forall>r<n. pairs out r = List.product (row a r) (row b r)
                  \<and> (\<forall>i<d1. \<forall>j<d2. pair_at out r (i * d2 + j) = (entry a r i, entry b r j)
                        \<and> (\<forall>i'<d1. \<forall>j'<d2. i' * d2 + j' = i * d2 + j \<longrightarrow> i' = i \<and> j' = j)))"
proof -
  let ?L = "left_data d2 (data a)" and ?R = "right_data d1 d2 (data b)"
  define out where "out = \<lparr>shape = [n, d1 * d2, 2], data = interleave ?L ?R\<rparr>"
  have res: "cartesian_product a b = Inr out"
    unfolding out_def by (rule cartesian_product_data [OF assms(1,2)])
  have la: "length (data a) = n * d1" and lb: "length (data b) = n * d2"
    using assms by (simp_all add: wf_tensor_def)
  have wf: "wf_tensor out"
    by (simp add: wf_tensor_def out_def length_interleave length_left_data la
        length_right_data_any [OF lb] mult.assoc)
  have sh: "shape out = [n, d1 * d2, 2]"
    by (simp add: out_def)
  have row_facts: "pairs out r = List.product (row a r) (row b r)
      \<and> (\<forall>i<d1. \<forall>j<d2. pair_at out r (i * d2 + j) = (entry a r i, entry b r j)
            \<and> (\<forall>i'<d1. \<forall>j'<d2. i' * d2 + j' = i * d2 + j \<longrightarrow> i' = i \<and> j' = j))"
    if r: "r < n" for r
  proof (intro conjI allI impI)
    show "pairs out r = List.product (row a r) (row b r)"
      using assms res r by (rule cartesian_product_rows)
  next
    fix i j
    assume "i < d1" "j < d2"
    with assms res r show "pair_at out r (i * d2 + j) = (entry a r i, entry b r j)"
      by (rule cartesian_product_entries)
  next
    fix i j i' j'
    assume "j < d2" "j' < d2" "i' * d2 + j' = i * d2 + j"
    then show "i' = i" "j' = j"
      using position_inj [of j' d2 j i' i] by simp_all
  qed
  from res sh wf row_facts show ?thesis by blast
qed

theorem cartesian_product_pairs_witness:
  "shape IA = [2, 2] \<and> shape IB = [2, 3] \<and> wf_tensor IA \<and> wf_tensor IB
   \<and> (\<exists>out. cartesian_product IA IB = Inr out \<and> shape out = [2, 6, 2]
         \<and> pairs out 0 = [(5, 1), (5, 2), (5, 3), (7, 1), (7, 2), (7, 3)]
         \<and> pairs out 1 = [(6, 4), (6, 5), (6, 6), (8, 4), (8, 5), (8, 6)]
         \<and> distinct (pairs out 0) \<and> length (pairs out 0) = 6)"
proof -
  have h: "shape IA = [2, 2]" "shape IB = [2, 3]" "wf_tensor IA" "wf_tensor IB"
    by (simp_all add: IA_def IB_def wf_tensor_def)
  from cartesian_product_pairs [OF h] obtain out where
    o: "cartesian_product IA IB = Inr out" "shape out = [2 , 2 * 3, 2]"
    and rows: "\<forall>r<2. pairs out r = List.product (row IA r) (row IB r)"
    by blast
  have r0: "row IA 0 = [5, 7]" "row IB 0 = [1, 2, 3]" "row IA 1 = [6, 8]" "row IB 1 = [4, 5, 6]"
    by (simp_all add: row_def entry_def IA_def IB_def upt_conv_Cons)
  have "(0::nat) < 2" "(1::nat) < 2" by simp_all
  then have "pairs out 0 = List.product (row IA 0) (row IB 0)"
    "pairs out 1 = List.product (row IA 1) (row IB 1)"
    using rows by blast+
  then have "pairs out 0 = List.product [5, 7] [1, 2, 3]"
    "pairs out 1 = List.product [6, 8] [4, 5, 6]"
    by (simp_all only: r0)
  then have p: "pairs out 0 = [(5, 1), (5, 2), (5, 3), (7, 1), (7, 2), (7, 3)]"
    "pairs out 1 = [(6, 4), (6, 5), (6, 6), (8, 4), (8, 5), (8, 6)]"
    by simp_all
  then have d: "distinct (pairs out 0)" "length (pairs out 0) = 6" by simp_all
  have sh: "shape out = [2, 6, 2]" using o(2) by simp
  from o(1) sh p d have "\<exists>out. cartesian_product IA IB = Inr out \<and> shape out = [2, 6, 2]
         \<and> pairs out 0 = [(5, 1), (5, 2), (5, 3), (7, 1), (7, 2), (7, 3)]
         \<and> pairs out 1 = [(6, 4), (6, 5), (6, 6), (8, 4), (8, 5), (8, 6)]
         \<and> distinct (pairs out 0) \<and> length (pairs out 0) = 6"
    by blast
  with h show ?thesis by blast
qed

section \<open>Properties of the key generators\<close>

lemma sumsq_eq_0_iff: "(\<Sum>x\<leftarrow>u. (x::real)\<^sup>2) = 0 \<longleftrightarrow> (\<forall>x\<in>set u. x = 0)"
proof (induction u)
  case Nil
  then show ?case by simp
next
  case (Cons x u)
  have "x\<^sup>2 + (\<Sum>x\<leftarrow>u. x\<^sup>2) = 0 \<longleftrightarrow> x\<^sup>2 = 0 \<and> (\<Sum>x\<leftarrow>u. x\<^sup>2) = 0"
    using sumsq_nonneg [of u] by (intro add_nonneg_eq_0_iff) simp_all
  with Cons show ?case by simp
qed

lemma norm2_eq_0_iff: "norm2 u = 0 \<longleftrightarrow> (\<forall>x\<in>set u. x = 0)"
  by (simp add: norm2_def sumsq_eq_0_iff)

lemma norm2_nonneg: "0 \<le> norm2 u"
  by (simp add: norm2_def sumsq_nonneg)

lemma sumsq_scale: "(\<Sum>x\<leftarrow>map (\<lambda>x. x / c) u. x\<^sup>2) = (\<Sum>x\<leftarrow>u. (x::real)\<^sup>2) / c\<^sup>2"
  by (induction u) (simp_all add: power_divide add_divide_distrib)

lemma norm2_scale: "norm2 (map (\<lambda>x. x / c) u) = norm2 u / \<bar>c\<bar>"
  unfolding norm2_def sumsq_scale by (simp add: real_sqrt_divide)

lemma norm2_normalized:
  assumes "norm2 u \<noteq> 0"
  shows "norm2 (map (\<lambda>x. x / norm2 u) u) = 1"
  using assms norm2_nonneg [of u] by (simp add: norm2_scale)


lemma normalize_rows_nth:
  assumes "i < length X" and "norm2 (X ! i) \<noteq> 0"
  shows "normalize_rows X ! i = map Some (map (\<lambda>x. x / norm2 (X ! i)) (X ! i))"
  using assms by (simp add: normalize_rows_def np_true_divide_def)

lemma rounded_sumsq_bounds:
  assumes "\<forall>x\<in>set u. \<bar>r x - x\<bar> \<le> \<bar>x\<bar> * e" and "0 \<le> e" and "e \<le> 1"
  shows "(\<Sum>x\<leftarrow>map r u. x\<^sup>2) \<le> (1 + e)\<^sup>2 * (\<Sum>x\<leftarrow>u. (x::real)\<^sup>2)"
    and "(1 - e)\<^sup>2 * (\<Sum>x\<leftarrow>u. x\<^sup>2) \<le> (\<Sum>x\<leftarrow>map r u. x\<^sup>2)"
proof -
  have up: "(r x)\<^sup>2 \<le> (1 + e)\<^sup>2 * x\<^sup>2" and lo: "(1 - e)\<^sup>2 * x\<^sup>2 \<le> (r x)\<^sup>2"
    if "x \<in> set u" for x
  proof -
    from assms(1) that have d: "\<bar>r x - x\<bar> \<le> \<bar>x\<bar> * e" by blast
    then have "\<bar>r x\<bar> \<le> \<bar>x\<bar> + \<bar>x\<bar> * e" by linarith
    then have "\<bar>r x\<bar> \<le> (1 + e) * \<bar>x\<bar>" by (simp add: algebra_simps)
    then have "\<bar>r x\<bar>\<^sup>2 \<le> ((1 + e) * \<bar>x\<bar>)\<^sup>2"
      by (intro power_mono) simp_all
    then show "(r x)\<^sup>2 \<le> (1 + e)\<^sup>2 * x\<^sup>2" by (simp add: power_mult_distrib)
    from d have "\<bar>x\<bar> - \<bar>x\<bar> * e \<le> \<bar>r x\<bar>" by linarith
    then have "(1 - e) * \<bar>x\<bar> \<le> \<bar>r x\<bar>" by (simp add: algebra_simps)
    moreover have "0 \<le> (1 - e) * \<bar>x\<bar>" using assms(3) by simp
    ultimately have "((1 - e) * \<bar>x\<bar>)\<^sup>2 \<le> \<bar>r x\<bar>\<^sup>2"
      by (intro power_mono)
    then show "(1 - e)\<^sup>2 * x\<^sup>2 \<le> (r x)\<^sup>2" by (simp add: power_mult_distrib)
  qed
  have sq: "(\<Sum>x\<leftarrow>map r u. x\<^sup>2) = (\<Sum>x\<leftarrow>u. (r x)\<^sup>2)"
    by (simp add: o_def)
  have sc: "c * (\<Sum>x\<leftarrow>u. x\<^sup>2) = (\<Sum>x\<leftarrow>u. c * x\<^sup>2)" for c :: real
    by (simp add: sum_list_const_mult)
  show "(\<Sum>x\<leftarrow>map r u. x\<^sup>2) \<le> (1 + e)\<^sup>2 * (\<Sum>x\<leftarrow>u. x\<^sup>2)"
    unfolding sq sc using up by (rule sum_list_mono)
  show "(1 - e)\<^sup>2 * (\<Sum>x\<leftarrow>u. x\<^sup>2) \<le> (\<Sum>x\<leftarrow>map r u. x\<^sup>2)"
    unfolding sq sc using lo by (rule sum_list_mono)
qed

lemma rounded_norm2_bounds:
  assumes "\<forall>x\<in>set u. \<bar>r x - x\<bar> \<le> \<bar>x\<bar> * e" and "0 \<le> e" and "e \<le> 1"
  shows "\<bar>norm2 (map r u) - norm2 u\<bar> \<le> e * norm2 u"
proof -
  have "sqrt (\<Sum>x\<leftarrow>map r u. x\<^sup>2) \<le> sqrt ((1 + e)\<^sup>2 * (\<Sum>x\<leftarrow>u. x\<^sup>2))"
    using rounded_sumsq_bounds(1) [OF assms] by (rule real_sqrt_le_mono)
  then have up: "norm2 (map r u) \<le> (1 + e) * norm2 u"
    using assms(2) by (simp add: norm2_def real_sqrt_mult)
  have "sqrt ((1 - e)\<^sup>2 * (\<Sum>x\<leftarrow>u. x\<^sup>2)) \<le> sqrt (\<Sum>x\<leftarrow>map r u. x\<^sup>2)"
    using rounded_sumsq_bounds(2) [OF assms] by (rule real_sqrt_le_mono)
  then have lo: "(1 - e) * norm2 u \<le> norm2 (map r u)"
    using assms(3) by (simp add: norm2_def real_sqrt_mult)
  from up lo show ?thesis by (simp add: algebra_simps abs_le_iff)
qed






lemma normalized_row_unit:
  assumes "i < length X" and "\<exists>x\<in>set (X ! i). x \<noteq> 0"
  shows "unit_norm (normalize_rows X ! i) \<and> rounding_robust_unit_norm (normalize_rows X ! i)"
proof -
  let ?u = "map (\<lambda>x. x / norm2 (X ! i)) (X ! i)"
  have nz: "norm2 (X ! i) \<noteq> 0"
    using assms(2) by (simp add: norm2_eq_0_iff)
  have row: "normalize_rows X ! i = map Some ?u"
    using assms(1) nz by (rule normalize_rows_nth)
  have one: "norm2 ?u = 1" using nz by (rule norm2_normalized)
  have the_some: "map the (map Some ys) = ys" for ys :: "real list"
    by (simp add: o_def)
  have tol: "(1::real) / 2 ^ 24 \<le> 1 / 10 ^ 5" by simp
  have rob: "unit_norm (map (map_option r) (map Some ?u))"
    if r: "\<forall>x. Some x \<in> set (map Some ?u) \<longrightarrow> \<bar>r x - x\<bar> \<le> \<bar>x\<bar> / 2 ^ 24" for r
  proof -
    have "Some x \<in> set (map Some ?u)" if "x \<in> set ?u" for x
      using that by (rule imageI [of x "set ?u" Some, unfolded set_map [symmetric]])
    with r have "\<forall>x\<in>set ?u. \<bar>r x - x\<bar> \<le> \<bar>x\<bar> * (1 / 2 ^ 24)" by simp
    from rounded_norm2_bounds [OF this]
    have "\<bar>norm2 (map r ?u) - 1\<bar> \<le> 1 / 2 ^ 24" by (simp add: one)
    then have "\<bar>norm2 (map r ?u) - 1\<bar> \<le> 1 / 10 ^ 5" using tol by (rule order_trans)
    moreover have "map (map_option r) (map Some ?u) = map Some (map r ?u)" by simp
    ultimately show ?thesis
      unfolding unit_norm_def by (simp only: the_some) auto
  qed
  have "unit_norm (map Some ?u)"
    unfolding unit_norm_def the_some one by auto
  with rob show ?thesis
    unfolding row rounding_robust_unit_norm_def by blast
qed

lemma some_rows_nonzero:
  assumes "i < length X"
  shows "(\<exists>e\<in>set (map (map Some) X ! i). e \<noteq> Some 0) \<longleftrightarrow> (\<exists>x\<in>set (X ! i). x \<noteq> (0::real))"
  using assms by auto

text \<open>
  Claim C9. For both generators, with normalisation, every row whose generated entries
  are not all zero is returned with Euclidean norm \<open>1\<close> within \<open>10\<^sup>-\<^sup>5\<close> (exactly \<open>1\<close> in exact
  arithmetic), and stays within that tolerance under every entrywise rounding of relative
  error at most \<open>2\<^sup>-\<^sup>2\<^sup>4\<close>. The generated rows are read off the call without normalisation,
  which returns them as they were drawn.
\<close>

theorem normalized_keys_unit_norm:
  "(i < length (get_gaussian_keys randn n_keys d False seed)
      \<and> (\<exists>e\<in>set (get_gaussian_keys randn n_keys d False seed ! i). e \<noteq> Some 0)
     \<longrightarrow> unit_norm (get_gaussian_keys randn n_keys d True seed ! i)
          \<and> rounding_robust_unit_norm (get_gaussian_keys randn n_keys d True seed ! i))
   \<and> (get_uniform_keys random_sample n_keys d False seed = Inr X0
      \<and> i < length X0 \<and> (\<exists>e\<in>set (X0 ! i). e \<noteq> Some 0)
     \<longrightarrow> (\<exists>X1. get_uniform_keys random_sample n_keys d True seed = Inr X1
            \<and> unit_norm (X1 ! i) \<and> rounding_robust_unit_norm (X1 ! i)))"
proof (intro conjI impI)
  let ?X = "randn seed n_keys d"
  assume a: "i < length (get_gaussian_keys randn n_keys d False seed)
      \<and> (\<exists>e\<in>set (get_gaussian_keys randn n_keys d False seed ! i). e \<noteq> Some 0)"
  have raw: "get_gaussian_keys randn n_keys d False seed = map (map Some) ?X"
    by (simp add: get_gaussian_keys_def astype_float32_def)
  from a have i: "i < length ?X" by (simp add: raw)
  with a have nz: "\<exists>x\<in>set (?X ! i). x \<noteq> 0"
    unfolding raw by (simp only: some_rows_nonzero)
  have "get_gaussian_keys randn n_keys d True seed = normalize_rows ?X"
    by (simp add: get_gaussian_keys_def astype_float32_def)
  with normalized_row_unit [OF i nz]
  show "unit_norm (get_gaussian_keys randn n_keys d True seed ! i)"
    and "rounding_robust_unit_norm (get_gaussian_keys randn n_keys d True seed ! i)"
    by simp_all
next
  let ?c = "1 / sqrt (real d)"
  let ?X = "rng_uniform (random_sample seed n_keys d) (- ?c) ?c"
  assume a: "get_uniform_keys random_sample n_keys d False seed = Inr X0
      \<and> i < length X0 \<and> (\<exists>e\<in>set (X0 ! i). e \<noteq> Some 0)"
  then have d: "d \<noteq> 0"
    by (auto simp: get_uniform_keys_def split: if_splits)
  with a have raw: "X0 = map (map Some) ?X"
    by (simp add: get_uniform_keys_def astype_float32_def Let_def)
  from a have i: "i < length ?X" by (simp add: raw)
  with a have nz: "\<exists>x\<in>set (?X ! i). x \<noteq> 0"
    unfolding raw by (simp only: some_rows_nonzero)
  have "get_uniform_keys random_sample n_keys d True seed = Inr (normalize_rows ?X)"
    using d by (simp add: get_uniform_keys_def astype_float32_def Let_def)
  with normalized_row_unit [OF i nz]
  show "\<exists>X1. get_uniform_keys random_sample n_keys d True seed = Inr X1
            \<and> unit_norm (X1 ! i) \<and> rounding_robust_unit_norm (X1 ! i)"
    by simp
qed

theorem normalized_keys_unit_norm_witness:
  "get_gaussian_keys (\<lambda>seed n d. [[3, 4]]) 1 2 False 0 = [[Some 3, Some 4]]
   \<and> unit_norm (get_gaussian_keys (\<lambda>seed n d. [[3, 4]]) 1 2 True 0 ! 0)
   \<and> get_uniform_keys (\<lambda>seed n d. [[3 / 4, 1 / 2, 1 / 2, 1 / 2]]) 1 4 False 0
       = Inr [[Some (1 / 4), Some 0, Some 0, Some 0]]
   \<and> (\<exists>X1. get_uniform_keys (\<lambda>seed n d. [[3 / 4, 1 / 2, 1 / 2, 1 / 2]]) 1 4 True 0 = Inr X1
         \<and> unit_norm (X1 ! 0))"
proof -
  have g: "get_gaussian_keys (\<lambda>seed n d. [[3, 4]]) 1 2 False 0 = [[Some 3, Some 4]]"
    by (simp add: get_gaussian_keys_def astype_float32_def)
  have u: "get_uniform_keys (\<lambda>seed n d. [[3 / 4, 1 / 2, 1 / 2, 1 / 2]]) 1 4 False 0
       = Inr [[Some (1 / 4), Some 0, Some 0, Some 0]]"
    by (simp add: get_uniform_keys_def astype_float32_def rng_uniform_def)
  have "0 < length (get_gaussian_keys (\<lambda>seed n d. [[3, 4]]) 1 2 False 0)
      \<and> (\<exists>e\<in>set (get_gaussian_keys (\<lambda>seed n d. [[3, 4]]) 1 2 False 0 ! 0). e \<noteq> Some 0)"
    unfolding g by simp
  with normalized_keys_unit_norm [THEN conjunct1,
      of 0 "\<lambda>seed n d. [[3, 4]]" 1 2 0]
  have one: "unit_norm (get_gaussian_keys (\<lambda>seed n d. [[3, 4]]) 1 2 True 0 ! 0)"
    by blast
  have "get_uniform_keys (\<lambda>seed n d. [[3 / 4, 1 / 2, 1 / 2, 1 / 2]]) 1 4 False 0
       = Inr [[Some (1 / 4), Some 0, Some 0, Some 0]]
      \<and> 0 < length [[Some (1 / 4), Some 0, Some 0, Some (0::real)]]
      \<and> (\<exists>e\<in>set ([[Some (1 / 4), Some 0, Some 0, Some (0::real)]] ! 0). e \<noteq> Some 0)"
    using u by simp
  with normalized_keys_unit_norm [THEN conjunct2,
      of "\<lambda>seed n d. [[3 / 4, 1 / 2, 1 / 2, 1 / 2]]" 1 4 0
        "[[Some (1 / 4), Some 0, Some 0, Some 0]]" 0]
  have two: "\<exists>X1. get_uniform_keys (\<lambda>seed n d. [[3 / 4, 1 / 2, 1 / 2, 1 / 2]]) 1 4 True 0 = Inr X1
         \<and> unit_norm (X1 ! 0)"
    by blast
  from g one u two show ?thesis by blast
qed

end
